theory Spec2Isabelle
  imports Main "HOL-Library.Word" "HOL-Library.Signed_Division"
begin

section \<open>Machine integers of the Go source\<close>

text \<open>
  Go's \<open>int64\<close>, \<open>int32\<close> and \<open>int16\<close> are two's complement words; \<open>+\<close>, \<open>-\<close> and
  \<open>*\<close> wrap around silently.  Go's \<open>int\<close> is 64 bits wide on the two targets of the
  package (amd64/arm64 for the native backend, wasm for the bridged one).
\<close>

type_synonym int64 = "64 word"
type_synonym int32 = "32 word"
type_synonym int16 = "16 word"

text \<open>Go's \<open>/\<close> and \<open>%\<close> on signed integers truncate toward zero.\<close>

definition go_div :: "'a::len word \<Rightarrow> 'a word \<Rightarrow> 'a word" where
  "go_div a b = word_of_int (sint a sdiv sint b)"

definition go_rem :: "'a::len word \<Rightarrow> 'a word \<Rightarrow> 'a word" where
  "go_rem a b = word_of_int (sint a smod sint b)"

section \<open>Decimal digits\<close>

definition digit_char :: "nat \<Rightarrow> char" where
  "digit_char n = ''0123456789'' ! n"

text \<open>The value of a decimal digit; \<open>None\<close> for every byte outside \<open>'0'..'9'\<close>.\<close>

definition digit_of :: "char \<Rightarrow> nat option" where
  "digit_of c = map_of (zip ''0123456789'' [0, 1, 2, 3, 4, 5, 6, 7, 8, 9]) c"

text \<open>Go's \<open>isDigit\<close>: \<open>'0' <= c && c <= '9'\<close>.\<close>

definition isDigit :: "char \<Rightarrow> bool" where
  "isDigit c = (digit_of c \<noteq> None)"

text \<open>The decimal digits of a natural number, most significant first.\<close>

fun utoa :: "nat \<Rightarrow> string" where
  "utoa n = (if n < 10 then [digit_char n] else utoa (n div 10) @ [digit_char (n mod 10)])"

declare utoa.simps [simp del]

text \<open>The value of a non-empty string of decimal digits.\<close>

fun digits_val :: "nat \<Rightarrow> string \<Rightarrow> nat option" where
  "digits_val acc [] = Some acc"
| "digits_val acc (c # cs) =
     (case digit_of c of None \<Rightarrow> None | Some d \<Rightarrow> digits_val (10 * acc + d) cs)"

section \<open>Decimal rendering: \<open>fmt.Sprintf\<close> and \<open>Fmt\<close>\<close>

text \<open>
  The zero-padded decimal rendering of the verbs \<open>%02d\<close> and \<open>%04d\<close>: the sign, then
  zeros up to the width, then all the digits.  The width counts the sign.  This is what
  \<open>fmt.Sprintf\<close> of the standard library returns.
\<close>

definition fmt_d0 :: "nat \<Rightarrow> int \<Rightarrow> string" where
  "fmt_d0 w i =
     (let ds = utoa (nat \<bar>i\<bar>);
          sg = (if i < 0 then ''-'' else [])
      in sg @ replicate (w - length sg - length ds) CHR ''0'' @ ds)"

text \<open>
  \<open>Fmt\<close> belongs to tinywasm/fmt, a separate module whose source is not part of the
  repository.  For a number that fits the width its rendering is the one above; of a
  longer rendering it keeps the first \<open>w\<close> bytes only: \<open>Fmt("%02d", 100)\<close> is \<open>"10"\<close>
  and \<open>Fmt("%02d", -59)\<close> is \<open>"-5"\<close>.
\<close>

definition tinyFmt_d0 :: "nat \<Rightarrow> int \<Rightarrow> string" where
  "tinyFmt_d0 w i = take w (fmt_d0 w i)"

section \<open>External collaborator: the string helpers of tinywasm/fmt\<close>

text \<open>\<open>Count(s, ":")\<close>: the number of occurrences of a one-byte separator.\<close>

definition Count :: "string \<Rightarrow> char \<Rightarrow> nat" where
  "Count s c = length (filter (\<lambda>x. x = c) s)"

text \<open>
  The parsing capabilities of the library are parameters of the model: splitting on a
  separator, and the best-effort numeric parses \<open>Convert(s).Int()\<close> and
  \<open>Convert(s).Int64()\<close>, which return a number or an error (\<open>None\<close>).
\<close>

record fmtlib =
  conv_Split :: "string \<Rightarrow> char \<Rightarrow> string list"
  conv_Int :: "string \<Rightarrow> int64 option"
  conv_Int64 :: "string \<Rightarrow> int64 option"

text \<open>\<open>Split\<close> in the reference instance: the text is cut at every separator byte.\<close>

fun split_on :: "char \<Rightarrow> string \<Rightarrow> string \<Rightarrow> string list" where
  "split_on sep cur [] = [rev cur]"
| "split_on sep cur (c # cs) =
     (if c = sep then rev cur # split_on sep [] cs else split_on sep (c # cur) cs)"

text \<open>Decimal digits read into 64 bits, most significant first, with no overflow check.\<close>

fun digits_word :: "int64 \<Rightarrow> string \<Rightarrow> int64 option" where
  "digits_word acc [] = Some acc"
| "digits_word acc (c # cs) =
     (case digit_of c of None \<Rightarrow> None | Some d \<Rightarrow> digits_word (10 * acc + of_nat d) cs)"

text \<open>
  Modelled from the spec: the numeric parse behind \<open>Convert(s).Int()\<close> and
  \<open>Convert(s).Int64()\<close>, which the spec calls permissive and best-effort; its source
  belongs to tinywasm/fmt and is not part of the repository.  The empty text is 0.
  Otherwise the text is an optional minus sign and at least one decimal digit, read
  into 64 bits without an overflow check, optionally followed by a point and further
  digits, which are dropped (\<open>"8.5"\<close> is 8).  Every other text is an error.
\<close>

definition best_effort_int :: "string \<Rightarrow> int64 option" where
  "best_effort_int s =
     (if s = [] then Some 0
      else
        let neg = (hd s = CHR ''-'');
            body = (if neg then tl s else s);
            whole = takeWhile isDigit body;
            rest = dropWhile isDigit body
        in if whole = [] then None
           else if rest = [] \<or> (hd rest = CHR ''.'' \<and> list_all isDigit (tl rest))
           then map_option (\<lambda>n. if neg then - n else n) (digits_word 0 whole)
           else None)"

definition stdfmt :: fmtlib where
  "stdfmt = \<lparr> conv_Split = (\<lambda>s sep. split_on sep [] s),
              conv_Int = best_effort_int, conv_Int64 = best_effort_int \<rparr>"

section \<open>Shared helpers (\<open>parseTime\<close>, \<open>DaysBetweenShared\<close>)\<close>

datatype error =
    InvalidTimeFormat string
  | InvalidHours string
  | InvalidMinutes string
  | InvalidDateFormat string
  | InvalidDate string
  | HostParseError

text \<open>
  \<open>parseTime\<close>: split on \<open>':'\<close>; fewer than two parts is an error; the first part must
  parse to a number in \<open>0..23\<close>, the second to a number in \<open>0..59\<close>; the result is
  \<open>int16(hours*60 + minutes)\<close>.  No further part is looked at.
\<close>

definition parseTime :: "fmtlib \<Rightarrow> string \<Rightarrow> error + int16" where
  "parseTime lib timeStr =
     (let parts = conv_Split lib timeStr CHR '':'' in
      if length parts < 2 then Inl (InvalidTimeFormat timeStr)
      else case conv_Int lib (parts ! 0) of
        None \<Rightarrow> Inl (InvalidHours (parts ! 0))
      | Some hours \<Rightarrow>
          if sint hours < 0 \<or> 23 < sint hours then Inl (InvalidHours (parts ! 0))
          else case conv_Int lib (parts ! 1) of
            None \<Rightarrow> Inl (InvalidMinutes (parts ! 1))
          | Some minutes \<Rightarrow>
              if sint minutes < 0 \<or> 59 < sint minutes then Inl (InvalidMinutes (parts ! 1))
              else Inr (ucast (hours * 60 + minutes)))"

text \<open>\<open>DaysBetweenShared\<close>: \<open>int((nano2 - nano1) / nanosInDay)\<close>.\<close>

definition nanosInDay :: int64 where
  "nanosInDay = 86400000000000"

definition DaysBetweenShared :: "int64 \<Rightarrow> int64 \<Rightarrow> int64" where
  "DaysBetweenShared nano1 nano2 = go_div (nano2 - nano1) nanosInDay"

section \<open>The Timezone Offset Register\<close>

text \<open>
  The package state is one atomic \<open>int32\<close>, the offset in minutes.  Every package-level
  function runs in this state.
\<close>

record pkg_state =
  tzOffsetMinutes :: int32

text \<open>\<open>SetTimeZoneOffset(hours int)\<close> stores \<open>int32(hours * 60)\<close>.\<close>

definition SetTimeZoneOffset :: "int64 \<Rightarrow> pkg_state \<Rightarrow> pkg_state" where
  "SetTimeZoneOffset hours st = st\<lparr>tzOffsetMinutes := ucast (hours * 60)\<rparr>"

definition GetTimeZoneOffset :: "pkg_state \<Rightarrow> int64" where
  "GetTimeZoneOffset st = scast (go_div (tzOffsetMinutes st) 60)"

definition getOffsetMinutes :: "pkg_state \<Rightarrow> int32" where
  "getOffsetMinutes st = tzOffsetMinutes st"

text \<open>\<open>DaysBetween\<close> of the public API forwards to the shared helper.\<close>

definition DaysBetween :: "pkg_state \<Rightarrow> int64 \<Rightarrow> int64 \<Rightarrow> int64" where
  "DaysBetween st nano1 nano2 = DaysBetweenShared nano1 nano2"

section \<open>External collaborator: the calendar of the host\<close>

text \<open>
  Both hosts (Go's \<open>time\<close> package, the browser's \<open>Date\<close>) use the proleptic Gregorian
  calendar.  The model follows the algorithms of Go's \<open>time\<close> package, on unbounded
  integers: days are counted from 0001-01-01, in cycles of 400, 100, 4 and 1 years.
\<close>

definition isLeap :: "int \<Rightarrow> bool" where
  "isLeap year = (year mod 4 = 0 \<and> (year mod 100 \<noteq> 0 \<or> year mod 400 = 0))"

text \<open>\<open>daysBefore[m]\<close>: the days of a non-leap year before month \<open>m+1\<close>.\<close>

definition daysBefore :: "nat \<Rightarrow> int" where
  "daysBefore n =
     (if n \<le> 12 then [0, 31, 59, 90, 120, 151, 181, 212, 243, 273, 304, 334, 365] ! n
      else 365)"

definition daysIn :: "int \<Rightarrow> int \<Rightarrow> int" where
  "daysIn m year =
     (if m = 2 \<and> isLeap year then 29 else daysBefore (nat m) - daysBefore (nat m - 1))"

text \<open>\<open>daysSinceEpoch\<close> of Go, with 0001-01-01 as day 0.\<close>

definition daysSinceYear1 :: "int \<Rightarrow> int" where
  "daysSinceYear1 year =
     (let y = year - 1;
          n400 = y div 400; y1 = y - 400 * n400;
          n100 = y1 div 100; y2 = y1 - 100 * n100;
          n4 = y2 div 4; y3 = y2 - 4 * n4
      in 146097 * n400 + 36524 * n100 + 1461 * n4 + 365 * y3)"

text \<open>The day number of a civil date, with 1970-01-01 as day 0.\<close>

definition unixDays :: "int \<Rightarrow> int \<Rightarrow> int \<Rightarrow> int" where
  "unixDays year month day =
     daysSinceYear1 year + daysBefore (nat month - 1)
       + (if isLeap year \<and> 3 \<le> month then 1 else 0) + (day - 1) - 719162"

text \<open>\<open>absDate\<close> of Go, first half: the year and the day within the year.\<close>

definition absYear :: "int \<Rightarrow> int \<times> int" where
  "absYear D =
     (let n400 = D div 146097; d1 = D - 146097 * n400;
          c = d1 div 36524; n100 = c - c div 4; d2 = d1 - 36524 * n100;
          n4 = d2 div 1461; d3 = d2 - 1461 * n4;
          e = d3 div 365; n1 = e - e div 4; d4 = d3 - 365 * n1
      in (400 * n400 + 100 * n100 + 4 * n4 + n1 + 1, d4))"

text \<open>\<open>absDate\<close>, second half: month and day of the month from the day of the year.\<close>

definition ydayMonthDay :: "bool \<Rightarrow> int \<Rightarrow> int \<times> int" where
  "ydayMonthDay leap yday =
     (if leap \<and> yday = 59 then (2, 29)
      else let day = (if leap \<and> 59 < yday then yday - 1 else yday);
               month = day div 31;
               fin = daysBefore (nat month + 1)
           in if fin \<le> day then (month + 2, day - fin + 1)
              else (month + 1, day - daysBefore (nat month) + 1))"

text \<open>Year, month and day of a day number counted from 1970-01-01.\<close>

definition civilFromDays :: "int \<Rightarrow> int \<times> int \<times> int" where
  "civilFromDays n =
     (let (year, yday) = absYear (n + 719162);
          (month, day) = ydayMonthDay (isLeap year) yday
      in (year, month, day))"

section \<open>External collaborator: Go's \<open>time\<close> package (native backend)\<close>

text \<open>
  A \<open>time.Time\<close> in UTC: whole seconds since 1970-01-01T00:00:00Z and the nanoseconds
  within the second.  A \<open>time.Duration\<close> is an \<open>int64\<close> count of nanoseconds.
\<close>

record gotime =
  unixSec :: int
  nsec :: int

text \<open>\<open>time.Unix(0, nsec).UTC()\<close>: the nanoseconds are normalised into \<open>[0, 1e9)\<close>.\<close>

definition time_Unix :: "int64 \<Rightarrow> gotime" where
  "time_Unix v =
     (let n = sint v sdiv 1000000000; r = sint v - n * 1000000000
      in if r < 0 then \<lparr>unixSec = n - 1, nsec = r + 1000000000\<rparr>
         else \<lparr>unixSec = n, nsec = r\<rparr>)"

text \<open>\<open>t.Add(d)\<close>: seconds and nanoseconds of the duration are added separately.\<close>

definition time_Add :: "gotime \<Rightarrow> int64 \<Rightarrow> gotime" where
  "time_Add t d =
     (let dsec = sint d sdiv 1000000000;
          ns = nsec t + sint d smod 1000000000
      in if 1000000000 \<le> ns then \<lparr>unixSec = unixSec t + dsec + 1, nsec = ns - 1000000000\<rparr>
         else if ns < 0 then \<lparr>unixSec = unixSec t + dsec - 1, nsec = ns + 1000000000\<rparr>
         else \<lparr>unixSec = unixSec t + dsec, nsec = ns\<rparr>)"

text \<open>\<open>t.UnixNano()\<close>: \<open>sec*1e9 + nsec\<close> in \<open>int64\<close>, wrapping outside 1678..2262.\<close>

definition time_UnixNano :: "gotime \<Rightarrow> int64" where
  "time_UnixNano t = word_of_int (unixSec t) * 1000000000 + word_of_int (nsec t)"

text \<open>\<open>time.Date(year, month, day, 0, 0, 0, 0, time.UTC)\<close> for a date in range.\<close>

definition time_Date :: "int \<Rightarrow> int \<Rightarrow> int \<Rightarrow> gotime" where
  "time_Date year month day = \<lparr>unixSec = 86400 * unixDays year month day, nsec = 0\<rparr>"

definition time_date :: "gotime \<Rightarrow> int \<times> int \<times> int" where
  "time_date t = civilFromDays (unixSec t div 86400)"

definition time_clock :: "gotime \<Rightarrow> int \<times> int \<times> int" where
  "time_clock t =
     (let s = unixSec t mod 86400; hour = s div 3600; s1 = s - hour * 3600;
          minute = s1 div 60
      in (hour, minute, s1 - minute * 60))"

text \<open>\<open>appendInt\<close> of the \<open>time\<close> package: the sign, then the digits padded to the width.\<close>

definition appendInt :: "int \<Rightarrow> nat \<Rightarrow> string" where
  "appendInt x width =
     (let ds = utoa (nat \<bar>x\<bar>)
      in (if x < 0 then ''-'' else []) @ replicate (width - length ds) CHR ''0'' @ ds)"

text \<open>\<open>t.Format\<close> with the layouts \<open>"2006-01-02"\<close> and \<open>"15:04:05"\<close>.\<close>

definition Format_date :: "gotime \<Rightarrow> string" where
  "Format_date t =
     (let (year, month, day) = time_date t
      in appendInt year 4 @ ''-'' @ appendInt month 2 @ ''-'' @ appendInt day 2)"

definition Format_clock :: "gotime \<Rightarrow> string" where
  "Format_clock t =
     (let (hour, minute, second) = time_clock t
      in appendInt hour 2 @ '':'' @ appendInt minute 2 @ '':'' @ appendInt second 2)"

text \<open>
  \<open>time.Parse("2006-01-02", value)\<close>, in the order of Go's parser: a four-digit year,
  a dash, a two-digit month in 1..12, a dash, a two-digit day, no text after it, and
  then the validation of the day against the month and the year.
\<close>

definition skip :: "char \<Rightarrow> string \<Rightarrow> string option" where
  "skip ch v = (case v of [] \<Rightarrow> None | c # rest \<Rightarrow> if c = ch then Some rest else None)"

definition getnum :: "string \<Rightarrow> (int \<times> string) option" where
  "getnum v =
     (case v of
        c1 # c2 # rest \<Rightarrow>
          (case digit_of c1 of None \<Rightarrow> None
           | Some a \<Rightarrow> (case digit_of c2 of None \<Rightarrow> None
                        | Some b \<Rightarrow> Some (int (a * 10 + b), rest)))
      | _ \<Rightarrow> None)"

definition time_Parse :: "string \<Rightarrow> error + gotime" where
  "time_Parse v =
     (if length v < 4 \<or> \<not> isDigit (hd v) then Inl HostParseError
      else case digits_val 0 (take 4 v) of
        None \<Rightarrow> Inl HostParseError
      | Some y \<Rightarrow>
         (case skip CHR ''-'' (drop 4 v) of
            None \<Rightarrow> Inl HostParseError
          | Some v1 \<Rightarrow>
             (case getnum v1 of
                None \<Rightarrow> Inl HostParseError
              | Some (month, v2) \<Rightarrow>
                 if month \<le> 0 \<or> 12 < month then Inl HostParseError
                 else (case skip CHR ''-'' v2 of
                    None \<Rightarrow> Inl HostParseError
                  | Some v3 \<Rightarrow>
                     (case getnum v3 of
                        None \<Rightarrow> Inl HostParseError
                      | Some (day, v4) \<Rightarrow>
                         if v4 \<noteq> [] then Inl HostParseError
                         else if day < 1 \<or> daysIn month (int y) < day then Inl HostParseError
                         else Inr (time_Date (int y) month day))))))"

section \<open>The native backend (\<open>timeServer\<close>)\<close>

text \<open>
  The methods are those of the version of the backend that applies the Timezone Offset
  Register.  The earlier version in the same file has no \<open>applyOffset\<close>; its results on
  instants are those of a register holding 0, and its branch for strings is the same.
  Its branch for minutes calls \<open>Fmt\<close> where this one calls \<open>fmt.Sprintf\<close>, with the same
  format: it is the branch of the bridged backend below.
\<close>

text \<open>The dynamic type of a value passed as \<open>any\<close>; \<open>AnyOther\<close> is every other type.\<close>

datatype any_value = AnyInt64 int64 | AnyInt16 int16 | AnyString string | AnyOther

text \<open>\<open>time.Minute\<close>, a \<open>Duration\<close>.\<close>

definition time_Minute :: int64 where
  "time_Minute = 60000000000"

text \<open>\<open>applyOffset\<close>: \<open>t.Add(time.Duration(offset) * time.Minute)\<close>.\<close>

definition applyOffset :: "pkg_state \<Rightarrow> gotime \<Rightarrow> gotime" where
  "applyOffset st t = time_Add t (scast (getOffsetMinutes st) * time_Minute)"

definition timeServer_FormatDate :: "pkg_state \<Rightarrow> any_value \<Rightarrow> string" where
  "timeServer_FormatDate st val =
     (case val of
        AnyInt64 v \<Rightarrow> Format_date (applyOffset st (time_Unix v))
      | AnyString v \<Rightarrow> (case time_Parse v of Inr t \<Rightarrow> v | Inl e \<Rightarrow> [])
      | _ \<Rightarrow> [])"

definition timeServer_FormatTime :: "fmtlib \<Rightarrow> pkg_state \<Rightarrow> any_value \<Rightarrow> string" where
  "timeServer_FormatTime lib st val =
     (case val of
        AnyInt64 v \<Rightarrow> Format_clock (applyOffset st (time_Unix v))
      | AnyInt16 v \<Rightarrow>
          (let hours = go_div v 60; minutes = go_rem v 60
           in fmt_d0 2 (sint hours) @ '':'' @ fmt_d0 2 (sint minutes))
      | AnyString v \<Rightarrow>
          (case conv_Int64 lib v of
             Some nano \<Rightarrow> Format_clock (applyOffset st (time_Unix nano))
           | None \<Rightarrow> if 1 \<le> Count v CHR '':'' then v else [])
      | AnyOther \<Rightarrow> [])"

definition timeServer_ParseDate :: "string \<Rightarrow> error + int64" where
  "timeServer_ParseDate dateStr =
     (case time_Parse dateStr of Inl e \<Rightarrow> Inl e | Inr t \<Rightarrow> Inr (time_UnixNano t))"

section \<open>\<open>float64\<close> arithmetic\<close>

text \<open>
  A finite \<open>float64\<close> is modelled by the rational number it denotes, a pair of a
  numerator and a positive denominator.  Every operation rounds its exact result to the
  nearest number with a significand of 53 bits, ties to the even significand (IEEE 754
  binary64, the default rounding).  The bridged backend computes on numbers between
  \<open>2^-20\<close> and \<open>2^64\<close> in magnitude, and on 0; subnormal numbers and infinities do not
  arise and are not part of the model.
\<close>

type_synonym float64 = "int \<times> int"

text \<open>The number of bits of a positive integer.\<close>

function bit_length :: "int \<Rightarrow> nat" where
  "bit_length n = (if n \<le> 0 then 0 else Suc (bit_length (n div 2)))"
  by pat_completeness auto

termination
  by (relation "measure nat") auto

declare bit_length.simps [simp del]

text \<open>The exponent \<open>e\<close> of a positive fraction: \<open>2^e \<le> a/q < 2^(e+1)\<close>.\<close>

definition f64_exponent :: "int \<Rightarrow> int \<Rightarrow> int" where
  "f64_exponent a q =
     (let e0 = int (bit_length a) - int (bit_length q)
      in if (if 0 \<le> e0 then q * 2 ^ nat e0 \<le> a else q \<le> a * 2 ^ nat (- e0))
         then e0 else e0 - 1)"

text \<open>The integer nearest to \<open>n/d\<close>, the even one of two equally near.\<close>

definition round_half_even :: "int \<Rightarrow> int \<Rightarrow> int" where
  "round_half_even n d =
     (let k = n div d; r = n mod d
      in if 2 * r < d then k else if d < 2 * r then k + 1
         else if even k then k else k + 1)"

definition f64_round :: "int \<Rightarrow> int \<Rightarrow> float64" where
  "f64_round p q =
     (if p = 0 then (0, 1)
      else
        let a = \<bar>p\<bar>;
            e = f64_exponent a q - 52;
            m = (if 0 \<le> e then round_half_even a (q * 2 ^ nat e)
                 else round_half_even (a * 2 ^ nat (- e)) q)
        in if 0 \<le> e then (sgn p * m * 2 ^ nat e, 1)
           else (sgn p * m, 2 ^ nat (- e)))"

text \<open>The conversion \<open>float64(i)\<close> of an integer, and \<open>+\<close>, \<open>*\<close> and \<open>/\<close>.\<close>

definition f64_of_int :: "int \<Rightarrow> float64" where
  "f64_of_int i = f64_round i 1"

definition f64_add :: "float64 \<Rightarrow> float64 \<Rightarrow> float64" where
  "f64_add x y = f64_round (fst x * snd y + fst y * snd x) (snd x * snd y)"

definition f64_mul :: "float64 \<Rightarrow> float64 \<Rightarrow> float64" where
  "f64_mul x y = f64_round (fst x * fst y) (snd x * snd y)"

text \<open>Division by a number other than 0.\<close>

definition f64_div :: "float64 \<Rightarrow> float64 \<Rightarrow> float64" where
  "f64_div x y = f64_round (fst x * snd y * sgn (fst y)) (snd x * \<bar>fst y\<bar>)"

section \<open>External collaborator: the browser's \<open>Date\<close> (bridged backend)\<close>

text \<open>
  A valid \<open>Date\<close> is its time value, whole milliseconds since the epoch.  Two host
  operations are parameters of the model: the parser behind \<open>new Date(string)\<close>
  (\<open>None\<close> is \<open>Invalid Date\<close>; what it accepts beyond the ISO format differs between
  browsers), and \<open>new Date(number)\<close>.
\<close>

record jshost =
  Date_parse :: "string \<Rightarrow> int option"
  Date_at :: "float64 \<Rightarrow> int"

text \<open>
  \<open>new Date(number)\<close> as ECMAScript defines it (\<open>TimeClip\<close>): the number is truncated
  toward zero to whole milliseconds.  A number beyond \<open>8.64e15\<close> in magnitude would be
  an \<open>Invalid Date\<close>; the backend passes \<open>float64(nano)/1e6 + offsetMs\<close> with an
  \<open>int64\<close> \<open>nano\<close> and an \<open>int32\<close> count of minutes, which is below \<open>1.4e14\<close> in
  magnitude.
\<close>

definition js_TimeClip :: "float64 \<Rightarrow> int" where
  "js_TimeClip x = sgn (fst x) * (\<bar>fst x\<bar> div snd x)"

text \<open>\<open>getUTCFullYear()\<close>, \<open>getUTCMonth() + 1\<close> and \<open>getUTCDate()\<close>.\<close>

definition js_utc_date :: "int \<Rightarrow> int \<times> int \<times> int" where
  "js_utc_date ms = civilFromDays (ms div 86400000)"

text \<open>\<open>getUTCHours()\<close>, \<open>getUTCMinutes()\<close> and \<open>getUTCSeconds()\<close>.\<close>

definition js_utc_clock :: "int \<Rightarrow> int \<times> int \<times> int" where
  "js_utc_clock ms =
     (let t = ms mod 86400000
      in (t div 3600000, (t div 60000) mod 60, (t div 1000) mod 60))"

text \<open>\<open>toISOString()\<close>: four-digit years, or a sign and six digits outside 0..9999.\<close>

definition js_toISOString :: "int \<Rightarrow> string" where
  "js_toISOString ms =
     (let (year, month, day) = js_utc_date ms;
          (hour, minute, second) = js_utc_clock ms;
          ys = (if 0 \<le> year \<and> year \<le> 9999 then appendInt year 4
                else (if year < 0 then ''-'' else ''+'') @ appendInt \<bar>year\<bar> 6)
      in ys @ ''-'' @ appendInt month 2 @ ''-'' @ appendInt day 2 @ ''T''
           @ appendInt hour 2 @ '':'' @ appendInt minute 2 @ '':'' @ appendInt second 2
           @ ''.'' @ appendInt (ms mod 1000) 3 @ ''Z'')"

text \<open>
  A reference parser for concrete runs: the ISO date-time form \<open>YYYY-MM-DDT00:00:00Z\<close>
  with a month in 1..12 and a day in 1..31, a day past the end of the month rolling over
  into the next month (as V8 does); everything else is \<open>Invalid Date\<close>.
\<close>

definition rollover_parse :: "string \<Rightarrow> int option" where
  "rollover_parse s =
     (if length s \<noteq> 20 \<or> drop 10 s \<noteq> ''T00:00:00Z'' then None
      else case digits_val 0 (take 4 s) of
        None \<Rightarrow> None
      | Some y \<Rightarrow>
         (case skip CHR ''-'' (drop 4 s) of
            None \<Rightarrow> None
          | Some v1 \<Rightarrow>
             (case getnum v1 of
                None \<Rightarrow> None
              | Some (month, v2) \<Rightarrow>
                 (case skip CHR ''-'' v2 of
                    None \<Rightarrow> None
                  | Some v3 \<Rightarrow>
                     (case getnum v3 of
                        None \<Rightarrow> None
                      | Some (day, v4) \<Rightarrow>
                         if 1 \<le> month \<and> month \<le> 12 \<and> 1 \<le> day \<and> day \<le> 31
                         then Some (86400000 * unixDays (int y) month day)
                         else None)))))"

definition rollover_js :: jshost where
  "rollover_js = \<lparr> Date_parse = rollover_parse, Date_at = js_TimeClip \<rparr>"

section \<open>The bridged backend (\<open>timeClient\<close>)\<close>

text \<open>
  As for the native backend, the version with the register is the one modelled.  The
  branches of \<open>FormatDate\<close> for strings and of \<open>FormatTime\<close> for minutes,
  \<open>ParseDate\<close> and the timer are the same in both versions.
\<close>

text \<open>
  \<open>applyOffset\<close>: \<open>offsetMs := float64(getOffsetMinutes()) * 60000\<close>, then
  \<open>new Date(float64(nano)/1e6 + offsetMs)\<close>.
\<close>

definition timeClient_applyOffset :: "jshost \<Rightarrow> pkg_state \<Rightarrow> int64 \<Rightarrow> int" where
  "timeClient_applyOffset js st nano =
     (let offsetMs = f64_mul (f64_of_int (sint (getOffsetMinutes st))) (f64_of_int 60000)
      in Date_at js (f64_add (f64_div (f64_of_int (sint nano)) (f64_of_int 1000000)) offsetMs))"

definition timeClient_FormatDate :: "jshost \<Rightarrow> pkg_state \<Rightarrow> any_value \<Rightarrow> string" where
  "timeClient_FormatDate js st val =
     (case val of
        AnyInt64 v \<Rightarrow> take 10 (js_toISOString (timeClient_applyOffset js st v))
      | AnyString v \<Rightarrow>
          if length v = 10 \<and> v ! 4 = CHR ''-'' \<and> v ! 7 = CHR ''-'' then v else []
      | _ \<Rightarrow> [])"

definition js_clock_string :: "int \<Rightarrow> string" where
  "js_clock_string ms =
     (let (hours, minutes, seconds) = js_utc_clock ms
      in tinyFmt_d0 2 hours @ '':'' @ tinyFmt_d0 2 minutes @ '':'' @ tinyFmt_d0 2 seconds)"

definition timeClient_FormatTime ::
  "fmtlib \<Rightarrow> jshost \<Rightarrow> pkg_state \<Rightarrow> any_value \<Rightarrow> string" where
  "timeClient_FormatTime lib js st val =
     (case val of
        AnyInt64 v \<Rightarrow> js_clock_string (timeClient_applyOffset js st v)
      | AnyInt16 v \<Rightarrow>
          (let hours = go_div v 60; minutes = go_rem v 60
           in tinyFmt_d0 2 (sint hours) @ '':'' @ tinyFmt_d0 2 (sint minutes))
      | AnyString v \<Rightarrow>
          (case conv_Int64 lib v of
             Some nano \<Rightarrow> js_clock_string (timeClient_applyOffset js st nano)
           | None \<Rightarrow> if 1 \<le> Count v CHR '':'' then v else [])
      | AnyOther \<Rightarrow> [])"

text \<open>
  \<open>timeClient.ParseDate\<close>: the shape check, the host parser on \<open>dateStr + "T00:00:00Z"\<close>,
  the comparison of the re-rendered fields with the input, and
  \<open>int64(ms) * 1000000\<close>.  The fields are rendered by \<open>fmt_d0\<close>, which is the rendering
  of \<open>Fmt\<close> for a month, a day and a year of at most four digits.
\<close>

definition timeClient_ParseDate :: "jshost \<Rightarrow> string \<Rightarrow> error + int64" where
  "timeClient_ParseDate js dateStr =
     (if length dateStr \<noteq> 10 \<or> dateStr ! 4 \<noteq> CHR ''-'' \<or> dateStr ! 7 \<noteq> CHR ''-''
      then Inl (InvalidDateFormat dateStr)
      else case Date_parse js (dateStr @ ''T00:00:00Z'') of
        None \<Rightarrow> Inl (InvalidDateFormat dateStr)
      | Some ms \<Rightarrow>
          (let (year, month, day) = js_utc_date ms;
               expected = fmt_d0 4 year @ ''-'' @ fmt_d0 2 month @ ''-'' @ fmt_d0 2 day
           in if expected \<noteq> dateStr then Inl (InvalidDate expected)
              else Inr (word_of_int ms * 1000000)))"

section \<open>Timers\<close>

text \<open>
  A callback is a \<open>func()\<close> acting on the state of the application, or \<open>nil\<close>.  Calling
  a \<open>nil\<close> function value is a run-time failure in Go.
\<close>

datatype panic = NilFuncCall

definition call_func :: "('w \<Rightarrow> 'w) option \<Rightarrow> 'w \<Rightarrow> panic + 'w" where
  "call_func fn w = (case fn of None \<Rightarrow> Inl NilFuncCall | Some g \<Rightarrow> Inr (g w))"

subsection \<open>\<open>WasmTimer\<close>\<close>

text \<open>
  The struct (the \<open>js.Func\<close> field is represented by the count of its \<open>Release\<close>
  calls), together with what its methods act on: the ids handed to \<open>clearTimeout\<close>, the
  state of the application, and the number of runs of the callback.
\<close>

record 'w WasmTimer =
  timer_id :: int
  active :: bool
  callback :: "('w \<Rightarrow> 'w) option"

record 'w wasm_env =
  wt :: "'w WasmTimer"
  releases :: nat
  cleared :: "int list"
  world :: 'w
  invoked :: nat

definition WasmTimer_Stop :: "'w wasm_env \<Rightarrow> bool \<times> 'w wasm_env" where
  "WasmTimer_Stop env =
     (if \<not> active (wt env) then (False, env)
      else (True, env\<lparr> cleared := timer_id (wt env) # cleared env,
                        wt := (wt env)\<lparr>active := False\<rparr>,
                        releases := Suc (releases env) \<rparr>))"

definition WasmTimer_Fire :: "'w wasm_env \<Rightarrow> panic + 'w wasm_env" where
  "WasmTimer_Fire env =
     (if \<not> active (wt env) then Inr env
      else let env1 = env\<lparr> wt := (wt env)\<lparr>active := False\<rparr>,
                              releases := Suc (releases env) \<rparr>
           in if callback (wt env1) \<noteq> None
              then (case call_func (callback (wt env1)) (world env1) of
                      Inl p \<Rightarrow> Inl p
                    | Inr w \<Rightarrow> Inr (env1\<lparr> world := w, invoked := Suc (invoked env1) \<rparr>))
              else Inr env1)"

text \<open>\<open>timeClient.AfterFunc\<close>; \<open>tid\<close> is the id the host's \<open>setTimeout\<close> returns.\<close>

definition timeClient_AfterFunc :: "int \<Rightarrow> ('w \<Rightarrow> 'w) option \<Rightarrow> 'w \<Rightarrow> 'w wasm_env" where
  "timeClient_AfterFunc tid f w =
     \<lparr> wt = \<lparr> timer_id = tid, active = True, callback = f \<rparr>,
       releases = 0, cleared = [], world = w, invoked = 0 \<rparr>"

subsection \<open>\<open>timerWrapper\<close> and Go's runtime timer\<close>

text \<open>
  The timer of \<open>time.AfterFunc(d, f)\<close>: pending until it expires or is stopped.
  \<open>Stop\<close> reports whether the call stopped the timer; on expiry the runtime starts
  \<open>f\<close> with a \<open>go\<close> statement.
\<close>

record 'w go_timer =
  pending :: bool
  delay :: int64
  fn :: "('w \<Rightarrow> 'w) option"

record 'w native_env =
  tw :: "'w go_timer"
  nworld :: 'w
  ninvoked :: nat

definition time_Millisecond :: int64 where
  "time_Millisecond = 1000000"

definition time_AfterFunc :: "int64 \<Rightarrow> ('w \<Rightarrow> 'w) option \<Rightarrow> 'w go_timer" where
  "time_AfterFunc d f = \<lparr> pending = True, delay = d, fn = f \<rparr>"

definition Timer_Stop :: "'w go_timer \<Rightarrow> bool \<times> 'w go_timer" where
  "Timer_Stop t = (pending t, t\<lparr>pending := False\<rparr>)"

definition timer_expire :: "'w native_env \<Rightarrow> panic + 'w native_env" where
  "timer_expire env =
     (if \<not> pending (tw env) then Inr env
      else case call_func (fn (tw env)) (nworld env) of
             Inl p \<Rightarrow> Inl p
           | Inr w \<Rightarrow> Inr (env\<lparr> tw := (tw env)\<lparr>pending := False\<rparr>,
                                  nworld := w, ninvoked := Suc (ninvoked env) \<rparr>))"

definition timerWrapper_Stop :: "'w native_env \<Rightarrow> bool \<times> 'w native_env" where
  "timerWrapper_Stop env =
     (let (r, t) = Timer_Stop (tw env) in (r, env\<lparr>tw := t\<rparr>))"

definition timeServer_AfterFunc :: "int64 \<Rightarrow> ('w \<Rightarrow> 'w) option \<Rightarrow> 'w \<Rightarrow> 'w native_env" where
  "timeServer_AfterFunc milliseconds f w =
     \<lparr> tw = time_AfterFunc (milliseconds * time_Millisecond) f, nworld = w, ninvoked = 0 \<rparr>"

subsection \<open>Histories of one timer\<close>

text \<open>
  What can happen to a timer after \<open>AfterFunc\<close>: a call of \<open>Stop()\<close>, or the fire path
  (the delay elapses; in the bridged backend also the test hook \<open>FireTimer\<close>).  A run
  records the result of every \<open>Stop()\<close>, and ends at the first run-time failure.
\<close>

datatype timer_event = EvStop | EvFire

fun run_wasm :: "'w wasm_env \<Rightarrow> timer_event list \<Rightarrow> panic + (bool list \<times> 'w wasm_env)" where
  "run_wasm env [] = Inr ([], env)"
| "run_wasm env (EvStop # evs) =
     (let (r, env1) = WasmTimer_Stop env
      in case run_wasm env1 evs of Inl p \<Rightarrow> Inl p | Inr (rs, env2) \<Rightarrow> Inr (r # rs, env2))"
| "run_wasm env (EvFire # evs) =
     (case WasmTimer_Fire env of Inl p \<Rightarrow> Inl p | Inr env1 \<Rightarrow> run_wasm env1 evs)"

fun run_native :: "'w native_env \<Rightarrow> timer_event list \<Rightarrow> panic + (bool list \<times> 'w native_env)" where
  "run_native env [] = Inr ([], env)"
| "run_native env (EvStop # evs) =
     (let (r, env1) = timerWrapper_Stop env
      in case run_native env1 evs of Inl p \<Rightarrow> Inl p | Inr (rs, env2) \<Rightarrow> Inr (r # rs, env2))"
| "run_native env (EvFire # evs) =
     (case timer_expire env of Inl p \<Rightarrow> Inl p | Inr env1 \<Rightarrow> run_native env1 evs)"

section \<open>Notions of the specification\<close>

text \<open>The number of days of a year.\<close>

definition yearLen :: "int \<Rightarrow> int" where
  "yearLen y = (if isLeap y then 366 else 365)"

text \<open>The length of a month, and the day of the year on which it starts.\<close>

definition monthLen :: "bool \<Rightarrow> int \<Rightarrow> int" where
  "monthLen leap m =
     (if m = 2 \<and> leap then 29 else daysBefore (nat m) - daysBefore (nat m - 1))"

definition monthStart :: "bool \<Rightarrow> int \<Rightarrow> int" where
  "monthStart leap m = daysBefore (nat m - 1) + (if leap \<and> 3 \<le> m then 1 else 0)"

text \<open>An existing calendar date: a month in 1..12 and a day within the month.\<close>

definition validDate :: "int \<Rightarrow> int \<Rightarrow> int \<Rightarrow> bool" where
  "validDate y m d = (1 \<le> m \<and> m \<le> 12 \<and> 1 \<le> d \<and> d \<le> daysIn m y)"

text \<open>Two and four decimal digits, most significant first.\<close>

definition num2 :: "nat \<Rightarrow> nat \<Rightarrow> nat" where
  "num2 a b = 10 * a + b"

definition num4 :: "nat \<Rightarrow> nat \<Rightarrow> nat \<Rightarrow> nat \<Rightarrow> nat" where
  "num4 a b c d = 10 * (10 * (10 * a + b) + c) + d"

text \<open>
  A valid \<open>YYYY-MM-DD\<close> string, in the words of the specification: ten characters,
  dashes at positions 4 and 7, decimal digits at the other positions, and fields that
  denote an existing calendar date.
\<close>

definition dateFields :: "string \<Rightarrow> (int \<times> int \<times> int) option" where
  "dateFields s =
     (if length s = 10 \<and> s ! 4 = CHR ''-'' \<and> s ! 7 = CHR ''-''
      then (case digits_val 0 (take 4 s) of
              None \<Rightarrow> None
            | Some y \<Rightarrow>
               (case digits_val 0 (take 2 (drop 5 s)) of
                  None \<Rightarrow> None
                | Some m \<Rightarrow>
                   (case digits_val 0 (drop 8 s) of
                      None \<Rightarrow> None
                    | Some d \<Rightarrow> Some (int y, int m, int d))))
      else None)"

definition validDateString :: "string \<Rightarrow> bool" where
  "validDateString s =
     (case dateFields s of None \<Rightarrow> False | Some (y, m, d) \<Rightarrow> validDate y m d)"

text \<open>
  The \<open>HH:MM:SS\<close> clock, in UTC, of a count of whole seconds since the epoch.
\<close>

definition clockOfSeconds :: "int \<Rightarrow> string" where
  "clockOfSeconds s =
     (let t = s mod 86400
      in appendInt (t div 3600) 2 @ '':'' @ appendInt (t mod 3600 div 60) 2 @ '':''
           @ appendInt (t mod 60) 2)"

section \<open>Truncating division on machine integers\<close>

lemma sint_word_of_int_range:
  "- (2 ^ (LENGTH('a::len) - 1)) \<le> k \<Longrightarrow> k < 2 ^ (LENGTH('a) - 1) \<Longrightarrow>
   sint (word_of_int k :: 'a word) = k"
  by (simp add: sint_sbintrunc' signed_take_bit_int_eq_self)

lemma sdiv_pos_bounds:
  fixes x d :: int
  assumes "0 < d"
  shows "min x 0 \<le> x sdiv d \<and> x sdiv d \<le> max x 0"
proof (cases "0 \<le> x")
  case True
  then have "x sdiv d = x div d"
    using assms by (simp add: signed_divide_int_def sgn_if)
  moreover have "0 \<le> x div d" "x div d \<le> x"
    using True assms zdiv_mono2 [of x 1 d] by (simp_all add: pos_imp_zdiv_nonneg_iff)
  ultimately show ?thesis using True by simp
next
  case False
  then have "x sdiv d = - ((- x) div d)"
    using assms by (simp add: signed_divide_int_def sgn_if)
  moreover have "0 \<le> (- x) div d" "(- x) div d \<le> - x"
    using False assms zdiv_mono2 [of "- x" 1 d] by (simp_all add: pos_imp_zdiv_nonneg_iff)
  ultimately show ?thesis using False by simp
qed

lemma smod_pos_bounds:
  fixes x d :: int
  assumes "0 < d"
  shows "- d < x smod d \<and> x smod d < d"
proof (cases "0 \<le> x")
  case True
  then show ?thesis using assms smod_int_compares(1,2) [of x d] by simp
next
  case False
  then show ?thesis using assms smod_int_compares(3,4) [of x d] by simp
qed

lemma sint_go_div:
  fixes a b :: "'a::len word"
  assumes "0 < sint b"
  shows "sint (go_div a b) = sint a sdiv sint b"
proof -
  have "min (sint a) 0 \<le> sint a sdiv sint b" "sint a sdiv sint b \<le> max (sint a) 0"
    using sdiv_pos_bounds [OF assms, of "sint a"] by simp_all
  moreover have "- (2 ^ (LENGTH('a) - 1)) \<le> sint a" "sint a < 2 ^ (LENGTH('a) - 1)"
    using sint_ge [of a] sint_lt [of a] by simp_all
  ultimately have "- (2 ^ (LENGTH('a) - 1)) \<le> sint a sdiv sint b"
    "sint a sdiv sint b < 2 ^ (LENGTH('a) - 1)"
    by linarith+
  then show ?thesis
    unfolding go_div_def by (rule sint_word_of_int_range)
qed

lemma sint_go_rem:
  fixes a b :: "'a::len word"
  assumes "0 < sint b"
  shows "sint (go_rem a b) = sint a smod sint b"
proof -
  have "- sint b < sint a smod sint b" "sint a smod sint b < sint b"
    using smod_pos_bounds [OF assms, of "sint a"] by simp_all
  moreover have "- (2 ^ (LENGTH('a) - 1)) \<le> sint b" "sint b < 2 ^ (LENGTH('a) - 1)"
    using sint_ge [of b] sint_lt [of b] by simp_all
  ultimately have "- (2 ^ (LENGTH('a) - 1)) \<le> sint a smod sint b"
    "sint a smod sint b < 2 ^ (LENGTH('a) - 1)"
    by linarith+
  then show ?thesis
    unfolding go_rem_def by (rule sint_word_of_int_range)
qed

section \<open>Day differences\<close>

lemma sint_nanosInDay: "sint nanosInDay = 86400000000000"
  by (simp add: nanosInDay_def)

lemma sint_DaysBetweenShared:
  "sint (DaysBetweenShared a b) = sint (b - a) sdiv 86400000000000"
  by (simp add: DaysBetweenShared_def sint_go_div sint_nanosInDay)

lemma sint_sub_exact:
  fixes a b :: int64
  assumes "- (2 ^ 63) \<le> sint b - sint a" "sint b - sint a < 2 ^ 63"
  shows "sint (b - a) = sint b - sint a"
  using assms by (simp add: sint_word_diff signed_take_bit_int_eq_self)

lemma sint_minus_not_min:
  fixes w :: int64
  assumes "sint w \<noteq> - (2 ^ 63)"
  shows "sint (- w) = - sint w"
proof -
  have "- (2 ^ 63) \<le> sint w" "sint w < 2 ^ 63"
    using sint_ge [of w] sint_lt [of w] by simp_all
  with assms have "- (2 ^ 63) \<le> - sint w" "- sint w < 2 ^ 63" by linarith+
  then show ?thesis
    by (simp add: sint_word_minus signed_take_bit_int_eq_self)
qed

lemma day_not_dvd_min: "\<not> (86400000000000 :: int) dvd 2 ^ 63"
  by simp

lemma DaysBetweenShared_antisym:
  assumes "sint (b - a) \<noteq> - (2 ^ 63)"
  shows "DaysBetweenShared a b = - DaysBetweenShared b a"
proof -
  have "a - b = - (b - a)" by simp
  then have "sint (a - b) = - sint (b - a)"
    using sint_minus_not_min [OF assms] by simp
  then show ?thesis
    by (simp add: DaysBetweenShared_def go_div_def minus_sdiv_eq)
qed

lemma sint_sub_mod:
  fixes a b :: int64
  shows "sint (b - a) = (sint b - sint a + 2 ^ 63) mod 2 ^ 64 - 2 ^ 63"
proof -
  have "sint (b - a) = signed_take_bit 63 (sint b - sint a)"
    by (simp add: sint_word_diff)
  also have "\<dots> = take_bit 64 (sint b - sint a + 2 ^ 63) - 2 ^ 63"
    by (simp add: signed_take_bit_eq_take_bit_shift)
  finally show ?thesis by (simp add: take_bit_eq_mod)
qed

lemma dvd_math_diff_not_min:
  fixes a b :: int64
  assumes "86400000000000 dvd sint b - sint a"
  shows "sint (b - a) \<noteq> - (2 ^ 63)"
proof
  assume m: "sint (b - a) = - (2 ^ 63)"
  define x where "x = sint b - sint a"
  have rng: "- (2 ^ 64) < x" "x < 2 ^ 64"
    using sint_ge [of a] sint_lt [of a] sint_ge [of b] sint_lt [of b]
    by (simp_all add: x_def)
  from m have "(x + 2 ^ 63) mod 2 ^ 64 = 0"
    by (simp add: sint_sub_mod x_def)
  then obtain k where k: "x + 2 ^ 63 = 2 ^ 64 * k"
    by (auto simp add: mod_eq_0_iff_dvd)
  with rng have "k = 0 \<or> k = 1" by auto
  with k have "x = - (2 ^ 63) \<or> x = 2 ^ 63" by auto
  with assms show False
    by (auto simp add: x_def)
qed

theorem DaysBetween_exact_difference_counterexample:
  "timeServer_ParseDate ''1700-01-01'' = Inr (- 8520336000000000000)
   \<and> timeServer_ParseDate ''2200-01-01'' = Inr 7258118400000000000
   \<and> (sint (7258118400000000000 :: int64) - sint (- 8520336000000000000 :: int64))
         sdiv 86400000000000 = 182621
   \<and> sint (DaysBetween \<lparr>tzOffsetMinutes = 0\<rparr> (- 8520336000000000000) 7258118400000000000)
       = - 30882"
  by code_simp

text \<open>
  Claim C8, amended.  For all instants \<open>a\<close> and \<open>b\<close>, \<open>DaysBetween(a, b)\<close> is the
  quotient, truncated toward zero, by 86,400,000,000,000 of \<open>b - a\<close> computed in \<open>int64\<close>
  (wrapping) arithmetic; this is the quotient of the exact difference whenever that
  difference fits 64 bits (instants less than \<open>2^63\<close> nanoseconds, about 292 years,
  apart).  \<open>DaysBetween(a, a) = 0\<close>; \<open>DaysBetween(a, b) = -DaysBetween(b, a)\<close> whenever
  the difference (computed or exact) is a whole number of days; and the result is the
  same in every state of the Timezone Offset Register.
\<close>

theorem DaysBetween_truncating_division:
  "sint (DaysBetween st a b) = sint (b - a) sdiv 86400000000000
   \<and> (- (2 ^ 63) \<le> sint b - sint a \<and> sint b - sint a < 2 ^ 63 \<longrightarrow>
        sint (DaysBetween st a b) = (sint b - sint a) sdiv 86400000000000)
   \<and> DaysBetween st a a = 0
   \<and> (86400000000000 dvd sint (b - a) \<or> 86400000000000 dvd sint b - sint a \<longrightarrow>
        DaysBetween st a b = - DaysBetween st b a)
   \<and> DaysBetween st' a b = DaysBetween st a b"
proof -
  have 1: "sint (DaysBetween st a b) = sint (b - a) sdiv 86400000000000"
    by (simp add: DaysBetween_def sint_DaysBetweenShared)
  have 2: "- (2 ^ 63) \<le> sint b - sint a \<and> sint b - sint a < 2 ^ 63 \<longrightarrow>
        sint (DaysBetween st a b) = (sint b - sint a) sdiv 86400000000000"
    using 1 by (simp add: sint_sub_exact)
  have 3: "DaysBetween st a a = 0"
    by (simp add: DaysBetween_def DaysBetweenShared_def go_div_def)
  have 4: "DaysBetween st a b = - DaysBetween st b a"
    if "86400000000000 dvd sint (b - a) \<or> 86400000000000 dvd sint b - sint a"
  proof -
    from that have "sint (b - a) \<noteq> - (2 ^ 63)"
    proof
      assume "86400000000000 dvd sint (b - a)"
      then show ?thesis using day_not_dvd_min by auto
    next
      assume "86400000000000 dvd sint b - sint a"
      then show ?thesis by (rule dvd_math_diff_not_min)
    qed
    then show ?thesis
      by (simp add: DaysBetween_def DaysBetweenShared_antisym)
  qed
  have 5: "DaysBetween st' a b = DaysBetween st a b"
    by (simp add: DaysBetween_def)
  from 1 2 3 4 5 show ?thesis by blast
qed

theorem DaysBetween_truncating_division_witness:
  "sint (DaysBetween \<lparr>tzOffsetMinutes = 0\<rparr> 1705881600000000000 1705276800000000000) = - 7
   \<and> DaysBetween \<lparr>tzOffsetMinutes = 0\<rparr> 1705881600000000000 1705276800000000000
       = - DaysBetween \<lparr>tzOffsetMinutes = 0\<rparr> 1705276800000000000 1705881600000000000
   \<and> DaysBetween \<lparr>tzOffsetMinutes = - 180\<rparr> 1705881600000000000 1705276800000000000
       = DaysBetween \<lparr>tzOffsetMinutes = 0\<rparr> 1705881600000000000 1705276800000000000"
proof -
  have a: "(86400000000000 :: int) dvd
             sint (1705276800000000000 - 1705881600000000000 :: int64)"
    by simp
  note t = DaysBetween_truncating_division
    [of "\<lparr>tzOffsetMinutes = 0\<rparr>" 1705881600000000000 1705276800000000000
        "\<lparr>tzOffsetMinutes = - 180\<rparr>"]
  have 1: "sint (DaysBetween \<lparr>tzOffsetMinutes = 0\<rparr> 1705881600000000000 1705276800000000000) = - 7"
    using t [THEN conjunct1] by (simp add: signed_divide_int_def)
  have 2: "DaysBetween \<lparr>tzOffsetMinutes = 0\<rparr> 1705881600000000000 1705276800000000000
       = - DaysBetween \<lparr>tzOffsetMinutes = 0\<rparr> 1705276800000000000 1705881600000000000"
    using t a by blast
  have 3: "DaysBetween \<lparr>tzOffsetMinutes = - 180\<rparr> 1705881600000000000 1705276800000000000
       = DaysBetween \<lparr>tzOffsetMinutes = 0\<rparr> 1705881600000000000 1705276800000000000"
    using t by blast
  from 1 2 3 show ?thesis by blast
qed

section \<open>Minutes since midnight\<close>

lemma utoa_nonempty: "utoa n \<noteq> []"
  by (subst utoa.simps) simp

lemma fmt_d0_nonempty: "fmt_d0 w i \<noteq> []"
  by (simp add: fmt_d0_def Let_def utoa_nonempty)

lemma tinyFmt_d0_nonempty: "tinyFmt_d0 2 i \<noteq> []"
  by (simp add: tinyFmt_d0_def fmt_d0_nonempty)

text \<open>
  Claim C10.  \<open>FormatTime\<close> of an \<open>int16\<close> has no range validation in either backend:
  for every value \<open>v\<close> it formats \<open>v/60\<close> and \<open>v%60\<close> (both truncating toward zero)
  with \<open>%02d:%02d\<close>, never returns the empty string, and gives \<open>"25:00"\<close> for 1500.
  The rendering is the zero-padded one in the native backend, which formats with
  \<open>fmt.Sprintf\<close>.  The bridged backend (and the earlier native version) formats with
  \<open>Fmt\<close>, which keeps two bytes of each number: \<open>FormatTime(int16(6000))\<close> is
  \<open>"10:00"\<close> there, not the rendering \<open>"100:00"\<close> of 100 and 0, and
  \<open>FormatTime(int16(-59))\<close> is \<open>"00:-5"\<close>, not \<open>"00:-59"\<close>.
\<close>

theorem FormatTime_minutes_rendering:
  "timeServer_FormatTime lib st (AnyInt16 v)
     = fmt_d0 2 (sint v sdiv 60) @ '':'' @ fmt_d0 2 (sint v smod 60)
   \<and> timeClient_FormatTime lib js st (AnyInt16 v)
     = tinyFmt_d0 2 (sint v sdiv 60) @ '':'' @ tinyFmt_d0 2 (sint v smod 60)
   \<and> timeServer_FormatTime lib st (AnyInt16 v) \<noteq> []
   \<and> timeClient_FormatTime lib js st (AnyInt16 v) \<noteq> []
   \<and> timeServer_FormatTime lib st (AnyInt16 1500) = ''25:00''
   \<and> timeClient_FormatTime lib js st (AnyInt16 1500) = ''25:00''
   \<and> timeServer_FormatTime lib st (AnyInt16 6000) = ''100:00''
   \<and> timeClient_FormatTime lib js st (AnyInt16 6000) = ''10:00''
   \<and> timeServer_FormatTime lib st (AnyInt16 (- 59)) = ''00:-59''
   \<and> timeClient_FormatTime lib js st (AnyInt16 (- 59)) = ''00:-5''"
proof -
  have s: "timeServer_FormatTime lib st (AnyInt16 w)
     = fmt_d0 2 (sint w sdiv 60) @ '':'' @ fmt_d0 2 (sint w smod 60)" for w
    by (simp add: timeServer_FormatTime_def Let_def sint_go_div sint_go_rem)
  have c: "timeClient_FormatTime lib js st (AnyInt16 w)
     = tinyFmt_d0 2 (sint w sdiv 60) @ '':'' @ tinyFmt_d0 2 (sint w smod 60)" for w
    by (simp add: timeClient_FormatTime_def Let_def sint_go_div sint_go_rem)
  have e1: "fmt_d0 2 (sint (1500 :: int16) sdiv 60) @ '':'' @ fmt_d0 2 (sint (1500 :: int16) smod 60)
            = ''25:00''"
    by code_simp
  have e2: "tinyFmt_d0 2 (sint (1500 :: int16) sdiv 60) @ '':''
              @ tinyFmt_d0 2 (sint (1500 :: int16) smod 60) = ''25:00''"
    by code_simp
  have e3: "fmt_d0 2 (sint (6000 :: int16) sdiv 60) @ '':'' @ fmt_d0 2 (sint (6000 :: int16) smod 60)
            = ''100:00''"
    by code_simp
  have e4: "tinyFmt_d0 2 (sint (6000 :: int16) sdiv 60) @ '':''
              @ tinyFmt_d0 2 (sint (6000 :: int16) smod 60) = ''10:00''"
    by code_simp
  have e5: "fmt_d0 2 (sint (- 59 :: int16) sdiv 60) @ '':'' @ fmt_d0 2 (sint (- 59 :: int16) smod 60)
            = ''00:-59''"
    by code_simp
  have e6: "tinyFmt_d0 2 (sint (- 59 :: int16) sdiv 60) @ '':''
              @ tinyFmt_d0 2 (sint (- 59 :: int16) smod 60) = ''00:-5''"
    by code_simp
  show ?thesis
    unfolding s c
    by (intro conjI refl e1 e2 e3 e4 e5 e6) (simp_all add: fmt_d0_nonempty tinyFmt_d0_nonempty)
qed

section \<open>The cancellation contract of timers\<close>

lemma WasmTimer_Stop_inactive:
  "\<not> active (wt env) \<Longrightarrow> WasmTimer_Stop env = (False, env)"
  by (simp add: WasmTimer_Stop_def)

lemma WasmTimer_Fire_inactive:
  "\<not> active (wt env) \<Longrightarrow> WasmTimer_Fire env = Inr env"
  by (simp add: WasmTimer_Fire_def)

lemma run_wasm_inactive:
  "\<not> active (wt env) \<Longrightarrow>
   run_wasm env evs = Inr (replicate (count_list evs EvStop) False, env)"
proof (induction evs)
  case Nil
  then show ?case by simp
next
  case (Cons e evs)
  then show ?case
    by (cases e) (simp_all add: WasmTimer_Stop_inactive WasmTimer_Fire_inactive)
qed

lemma timerWrapper_Stop_inactive:
  "\<not> pending (tw env) \<Longrightarrow> timerWrapper_Stop env = (False, env)"
  by (simp add: timerWrapper_Stop_def Timer_Stop_def)

lemma timer_expire_inactive:
  "\<not> pending (tw env) \<Longrightarrow> timer_expire env = Inr env"
  by (simp add: timer_expire_def)

lemma run_native_inactive:
  "\<not> pending (tw env) \<Longrightarrow>
   run_native env evs = Inr (replicate (count_list evs EvStop) False, env)"
proof (induction evs)
  case Nil
  then show ?case by simp
next
  case (Cons e evs)
  then show ?case
    by (cases e) (simp_all add: timerWrapper_Stop_inactive timer_expire_inactive)
qed

lemma wasm_stop_first:
  "run_wasm (timeClient_AfterFunc tid f w) (EvStop # evs) =
     Inr (True # replicate (count_list evs EvStop) False,
          \<lparr> wt = \<lparr> timer_id = tid, active = False, callback = f \<rparr>,
            releases = 1, cleared = [tid], world = w, invoked = 0 \<rparr>)"
  by (simp add: timeClient_AfterFunc_def WasmTimer_Stop_def run_wasm_inactive)

lemma wasm_fire_first:
  "run_wasm (timeClient_AfterFunc tid f w) (EvFire # evs) =
     Inr (replicate (count_list evs EvStop) False,
          \<lparr> wt = \<lparr> timer_id = tid, active = False, callback = f \<rparr>,
            releases = 1, cleared = [],
            world = (case f of None \<Rightarrow> w | Some g \<Rightarrow> g w),
            invoked = (case f of None \<Rightarrow> 0 | Some g \<Rightarrow> 1) \<rparr>)"
  by (cases f)
     (simp_all add: timeClient_AfterFunc_def WasmTimer_Fire_def call_func_def
        run_wasm_inactive Let_def)

lemma native_stop_first:
  "run_native (timeServer_AfterFunc ms f w) (EvStop # evs) =
     Inr (True # replicate (count_list evs EvStop) False,
          \<lparr> tw = \<lparr> pending = False, delay = ms * time_Millisecond, fn = f \<rparr>,
            nworld = w, ninvoked = 0 \<rparr>)"
  by (simp add: timeServer_AfterFunc_def time_AfterFunc_def timerWrapper_Stop_def
        Timer_Stop_def run_native_inactive)

lemma native_fire_first:
  "run_native (timeServer_AfterFunc ms (Some g) w) (EvFire # evs) =
     Inr (replicate (count_list evs EvStop) False,
          \<lparr> tw = \<lparr> pending = False, delay = ms * time_Millisecond, fn = Some g \<rparr>,
            nworld = g w, ninvoked = 1 \<rparr>)"
  by (simp add: timeServer_AfterFunc_def time_AfterFunc_def timer_expire_def
        call_func_def run_native_inactive)

text \<open>
  Claim C1.  For a timer returned by \<open>AfterFunc\<close>, \<open>Stop()\<close> returns true exactly when
  the timer is still active, and then leaves it inactive with the callback never run;
  on an inactive timer (fired, or stopped before) \<open>Stop()\<close> returns false and changes
  nothing.  Over every history of a timer: if the first event is \<open>Stop()\<close>, it returns
  true, the callback never runs and every later \<open>Stop()\<close> returns false; if the first
  event is the firing, the callback runs once and every \<open>Stop()\<close> returns false.  Both
  backends.
\<close>

theorem timer_stop_contract:
  "fst (WasmTimer_Stop env) = active (wt env)
   \<and> \<not> active (wt (snd (WasmTimer_Stop env)))
   \<and> invoked (snd (WasmTimer_Stop env)) = invoked env
   \<and> (\<not> active (wt env) \<longrightarrow> WasmTimer_Stop env = (False, env) \<and> WasmTimer_Fire env = Inr env)
   \<and> run_wasm (timeClient_AfterFunc tid f w) (EvStop # evs) =
        Inr (True # replicate (count_list evs EvStop) False,
             \<lparr> wt = \<lparr> timer_id = tid, active = False, callback = f \<rparr>,
               releases = 1, cleared = [tid], world = w, invoked = 0 \<rparr>)
   \<and> run_wasm (timeClient_AfterFunc tid f w) (EvFire # evs) =
        Inr (replicate (count_list evs EvStop) False,
             \<lparr> wt = \<lparr> timer_id = tid, active = False, callback = f \<rparr>,
               releases = 1, cleared = [],
               world = (case f of None \<Rightarrow> w | Some g \<Rightarrow> g w),
               invoked = (case f of None \<Rightarrow> 0 | Some g \<Rightarrow> 1) \<rparr>)
   \<and> fst (timerWrapper_Stop nenv) = pending (tw nenv)
   \<and> \<not> pending (tw (snd (timerWrapper_Stop nenv)))
   \<and> ninvoked (snd (timerWrapper_Stop nenv)) = ninvoked nenv
   \<and> (\<not> pending (tw nenv) \<longrightarrow>
        timerWrapper_Stop nenv = (False, nenv) \<and> timer_expire nenv = Inr nenv)
   \<and> run_native (timeServer_AfterFunc ms h w) (EvStop # evs) =
        Inr (True # replicate (count_list evs EvStop) False,
             \<lparr> tw = \<lparr> pending = False, delay = ms * time_Millisecond, fn = h \<rparr>,
               nworld = w, ninvoked = 0 \<rparr>)
   \<and> run_native (timeServer_AfterFunc ms (Some g) w) (EvFire # evs) =
        Inr (replicate (count_list evs EvStop) False,
             \<lparr> tw = \<lparr> pending = False, delay = ms * time_Millisecond, fn = Some g \<rparr>,
               nworld = g w, ninvoked = 1 \<rparr>)"
proof (intro conjI impI)
  show "fst (WasmTimer_Stop env) = active (wt env)"
    by (simp add: WasmTimer_Stop_def)
  show "\<not> active (wt (snd (WasmTimer_Stop env)))"
    by (simp add: WasmTimer_Stop_def)
  show "invoked (snd (WasmTimer_Stop env)) = invoked env"
    by (simp add: WasmTimer_Stop_def)
  show "WasmTimer_Stop env = (False, env)" if "\<not> active (wt env)"
    using that by (rule WasmTimer_Stop_inactive)
  show "WasmTimer_Fire env = Inr env" if "\<not> active (wt env)"
    using that by (rule WasmTimer_Fire_inactive)
  show "fst (timerWrapper_Stop nenv) = pending (tw nenv)"
    by (simp add: timerWrapper_Stop_def Timer_Stop_def)
  show "\<not> pending (tw (snd (timerWrapper_Stop nenv)))"
    by (simp add: timerWrapper_Stop_def Timer_Stop_def)
  show "ninvoked (snd (timerWrapper_Stop nenv)) = ninvoked nenv"
    by (simp add: timerWrapper_Stop_def Timer_Stop_def)
  show "timerWrapper_Stop nenv = (False, nenv)" if "\<not> pending (tw nenv)"
    using that by (rule timerWrapper_Stop_inactive)
  show "timer_expire nenv = Inr nenv" if "\<not> pending (tw nenv)"
    using that by (rule timer_expire_inactive)
qed (rule wasm_stop_first wasm_fire_first native_stop_first native_fire_first)+

theorem timer_stop_contract_witness:
  "WasmTimer_Stop \<lparr> wt = \<lparr> timer_id = 7, active = False, callback = Some Suc \<rparr>,
                     releases = 1, cleared = [7], world = 0, invoked = 0 \<rparr>
     = (False, \<lparr> wt = \<lparr> timer_id = 7, active = False, callback = Some Suc \<rparr>,
                  releases = 1, cleared = [7], world = 0, invoked = 0 \<rparr>)
   \<and> timerWrapper_Stop \<lparr> tw = \<lparr> pending = False, delay = 100000000, fn = Some Suc \<rparr>,
                          nworld = 1, ninvoked = 1 \<rparr>
     = (False, \<lparr> tw = \<lparr> pending = False, delay = 100000000, fn = Some Suc \<rparr>,
                  nworld = 1, ninvoked = 1 \<rparr>)
   \<and> run_wasm (timeClient_AfterFunc 7 (Some Suc) 0) [EvStop, EvFire, EvStop]
     = Inr ([True, False],
            \<lparr> wt = \<lparr> timer_id = 7, active = False, callback = Some Suc \<rparr>,
              releases = 1, cleared = [7], world = 0, invoked = 0 \<rparr>)
   \<and> run_native (timeServer_AfterFunc 100 (Some Suc) 0) [EvFire, EvStop, EvStop]
     = Inr ([False, False],
            \<lparr> tw = \<lparr> pending = False, delay = 100000000, fn = Some Suc \<rparr>,
              nworld = 1, ninvoked = 1 \<rparr>)"
proof -
  let ?E = "\<lparr> wt = \<lparr> timer_id = 7, active = False, callback = Some Suc \<rparr>,
              releases = 1, cleared = [7], world = 0 :: nat, invoked = 0 \<rparr>"
  let ?N = "\<lparr> tw = \<lparr> pending = False, delay = 100000000, fn = Some Suc \<rparr>,
              nworld = 1 :: nat, ninvoked = 1 \<rparr>"
  note t = timer_stop_contract [of ?E 7 "Some Suc" 0 "[EvFire, EvStop]" ?N 100 "Some Suc" Suc]
  have e: "\<not> active (wt ?E)" and n: "\<not> pending (tw ?N)" by simp_all
  have 1: "WasmTimer_Stop ?E = (False, ?E)"
    using t e by blast
  have 2: "timerWrapper_Stop ?N = (False, ?N)"
    using t n by blast
  have 3: "run_wasm (timeClient_AfterFunc 7 (Some Suc) 0) [EvStop, EvFire, EvStop]
     = Inr ([True, False], ?E)"
    using t by simp
  have 4: "run_native (timeServer_AfterFunc 100 (Some Suc) 0) [EvFire, EvStop, EvStop]
     = Inr ([False, False], ?N)"
    using timer_stop_contract [of ?E 7 "Some Suc" 0 "[EvStop, EvStop]" ?N 100 "Some Suc" Suc]
    by (simp add: time_Millisecond_def)
  from 1 2 3 4 show ?thesis by (intro conjI)
qed

text \<open>
  Claim C9, evaluated in both backends.  With a \<open>nil\<close> callback the fire path of the
  bridged timer releases the wrapper, runs nothing and does not fail.  In the native
  backend the \<open>nil\<close> value is handed to \<open>time.AfterFunc\<close> as it is, and the expiry of the
  timer is a run-time failure.
\<close>

theorem nil_callback_fire:
  "WasmTimer_Fire (timeClient_AfterFunc tid None w)
     = Inr \<lparr> wt = \<lparr> timer_id = tid, active = False, callback = None \<rparr>,
             releases = 1, cleared = [], world = w, invoked = 0 \<rparr>
   \<and> timer_expire (timeServer_AfterFunc ms None w) = Inl NilFuncCall"
  by (simp add: timeClient_AfterFunc_def WasmTimer_Fire_def timeServer_AfterFunc_def
        time_AfterFunc_def timer_expire_def call_func_def)

section \<open>The calendar: years\<close>

lemma div_mod_split:
  fixes a k :: int
  assumes "0 < k"
  obtains q r where "a = k * q + r" "0 \<le> r" "r < k" "a div k = q" "a mod k = r"
proof
  show "a = k * (a div k) + a mod k" by simp
  show "0 \<le> a mod k" using assms by simp
  show "a mod k < k" using assms by simp
qed simp_all

lemma div_eqI:
  fixes a k q r :: int
  assumes "a = k * q + r" "0 \<le> r" "r < k"
  shows "a div k = q"
  using assms by (rule int_div_pos_eq)

lemma mod_eqI:
  fixes a k q r :: int
  assumes "a = k * q + r" "0 \<le> r" "r < k"
  shows "a mod k = r"
  using assms by (rule int_mod_pos_eq)

lemma daysSinceYear1_closed:
  "daysSinceYear1 y = 365 * (y - 1) + (y - 1) div 4 - (y - 1) div 100 + (y - 1) div 400"
proof -
  define z where "z = y - 1"
  obtain q r where q: "z = 400 * q + r" "0 \<le> r" "r < 400" "z div 400 = q"
    using div_mod_split [of 400 z] by auto
  obtain b r2 where b: "r = 100 * b + r2" "0 \<le> r2" "r2 < 100" "r div 100 = b"
    using div_mod_split [of 100 r] by auto
  obtain c e where c: "r2 = 4 * c + e" "0 \<le> e" "e < 4" "r2 div 4 = c"
    using div_mod_split [of 4 r2] by auto
  have z4: "z div 4 = 100 * q + 25 * b + c"
    by (rule div_eqI [where r = e]) (use q(1-3) b(1-3) c(1-3) in \<open>simp_all add: algebra_simps\<close>)
  have z100: "z div 100 = 4 * q + b"
    by (rule div_eqI [where r = r2]) (use q(1-3) b(1-3) c(1-3) in \<open>simp_all add: algebra_simps\<close>)
  have y1: "z - 400 * q = r" using q by linarith
  have y2: "r - 100 * b = r2" using b by linarith
  have y3: "r2 - 4 * c = e" using c by linarith
  have "daysSinceYear1 y = 146097 * q + 36524 * b + 1461 * c + 365 * e"
    unfolding daysSinceYear1_def Let_def z_def [symmetric]
    by (simp only: q(4) y1 b(4) y2 c(4) y3)
  also have "\<dots> = 365 * z + z div 4 - z div 100 + z div 400"
    unfolding z4 z100 q(4) using q(1) b(1) c(1) by linarith
  finally show ?thesis by (simp only: z_def)
qed

lemma div_step:
  fixes z k :: int
  assumes "0 < k"
  shows "(z + 1) div k = z div k + (if (z + 1) mod k = 0 then 1 else 0)"
proof -
  obtain q r where q: "z = k * q + r" "0 \<le> r" "r < k" "z div k = q"
    using div_mod_split [OF assms, of z] by auto
  show ?thesis
  proof (cases "r + 1 = k")
    case True
    have e: "z + 1 = k * (q + 1) + 0" using q True by (simp add: algebra_simps)
    have "(z + 1) div k = q + 1" "(z + 1) mod k = 0"
      using e assms by (auto intro: div_eqI mod_eqI)
    then show ?thesis using q by simp
  next
    case False
    have e: "z + 1 = k * q + (r + 1)" using q by simp
    have "(z + 1) div k = q" "(z + 1) mod k = r + 1"
      using e q False by (auto intro: div_eqI mod_eqI)
    then show ?thesis using q by simp
  qed
qed

lemma isLeap_dvd: "isLeap y \<longleftrightarrow> 4 dvd y \<and> (\<not> 100 dvd y \<or> 400 dvd y)"
  by (simp add: isLeap_def mod_eq_0_iff_dvd)

lemma daysSinceYear1_step: "daysSinceYear1 (y + 1) = daysSinceYear1 y + yearLen y"
proof -
  define z where "z = y - 1"
  have y: "y = z + 1" by (simp add: z_def)
  have d4: "(z + 1) div 4 = z div 4 + (if (z + 1) mod 4 = 0 then 1 else 0)"
    by (rule div_step) simp
  have d100: "(z + 1) div 100 = z div 100 + (if (z + 1) mod 100 = 0 then 1 else 0)"
    by (rule div_step) simp
  have d400: "(z + 1) div 400 = z div 400 + (if (z + 1) mod 400 = 0 then 1 else 0)"
    by (rule div_step) simp
  have "(400 :: int) = 100 * 4" "(100 :: int) = 4 * 25" by simp_all
  then have a: "(z + 1) mod 400 = 0 \<Longrightarrow> (z + 1) mod 100 = 0"
    and b: "(z + 1) mod 100 = 0 \<Longrightarrow> (z + 1) mod 4 = 0"
    by (metis dvd_mult_left mod_eq_0_iff_dvd)+
  have e: "z + 1 + 1 - 1 = z + 1" "z + 1 - 1 = z" by simp_all
  have c1: "daysSinceYear1 (z + 1 + 1)
              = 365 * (z + 1) + (z + 1) div 4 - (z + 1) div 100 + (z + 1) div 400"
    unfolding daysSinceYear1_closed e by (rule refl)
  have c0: "daysSinceYear1 (z + 1) = 365 * z + z div 4 - z div 100 + z div 400"
    unfolding daysSinceYear1_closed e by (rule refl)
  have "daysSinceYear1 (z + 1 + 1) = daysSinceYear1 (z + 1) + yearLen (z + 1)"
    unfolding c1 c0 d4 d100 d400 yearLen_def isLeap_def
    using a b
    by (cases "(z + 1) mod 4 = 0"; cases "(z + 1) mod 100 = 0"; cases "(z + 1) mod 400 = 0")
       simp_all
  then show ?thesis by (simp only: y)
qed

lemma yearLen_pos: "0 < yearLen y"
  by (simp add: yearLen_def)

lemma daysSinceYear1_mono:
  assumes "y < y'"
  shows "daysSinceYear1 y + yearLen y \<le> daysSinceYear1 y'"
proof -
  have "y + 1 \<le> y'" using assms by simp
  then show ?thesis
  proof (induction y' rule: int_ge_induct)
    case base
    then show ?case by (simp add: daysSinceYear1_step)
  next
    case (step i)
    have "daysSinceYear1 (i + 1) = daysSinceYear1 i + yearLen i"
      by (rule daysSinceYear1_step)
    with step yearLen_pos [of i] show ?case by linarith
  qed
qed

lemma daysSinceYear1_decomp:
  assumes "0 \<le> b" "b \<le> 3" "0 \<le> c" "c \<le> 24" "0 \<le> e" "e \<le> 3"
  shows "daysSinceYear1 (400 * q + 100 * b + 4 * c + e + 1)
         = 146097 * q + 36524 * b + 1461 * c + 365 * e"
proof -
  define z where "z = 400 * q + 100 * b + 4 * c + e"
  have z4: "z div 4 = 100 * q + 25 * b + c"
    by (rule div_eqI [where r = e]) (use assms in \<open>simp_all add: z_def\<close>)
  have z100: "z div 100 = 4 * q + b"
    by (rule div_eqI [where r = "4 * c + e"]) (use assms in \<open>simp_all add: z_def\<close>)
  have z400: "z div 400 = q"
    by (rule div_eqI [where r = "100 * b + 4 * c + e"]) (use assms in \<open>simp_all add: z_def\<close>)
  have "daysSinceYear1 (z + 1) = 365 * z + z div 4 - z div 100 + z div 400"
    unfolding daysSinceYear1_closed by simp
  also have "\<dots> = 146097 * q + 36524 * b + 1461 * c + 365 * e"
    unfolding z4 z100 z400 by (simp add: z_def)
  finally show ?thesis by (simp only: z_def)
qed

lemma isLeap_decomp:
  assumes "0 \<le> b" "b \<le> 3" "0 \<le> c" "c \<le> 24" "e = 3" "c \<noteq> 24 \<or> b = 3"
  shows "isLeap (400 * q + 100 * b + 4 * c + e + 1)"
proof -
  define y where "y = 400 * q + 100 * b + 4 * c + e + 1"
  have m4: "y mod 4 = 0"
    by (rule mod_eqI [where q = "100 * q + 25 * b + c + 1"]) (use assms in \<open>simp_all add: y_def\<close>)
  from assms(6) have "y mod 100 \<noteq> 0 \<or> y mod 400 = 0"
  proof
    assume "c \<noteq> 24"
    have "y mod 100 = 4 * c + 4"
      by (rule mod_eqI [where q = "4 * q + b"])
         (use assms \<open>c \<noteq> 24\<close> in \<open>simp_all add: y_def\<close>)
    then show ?thesis using assms by simp
  next
    assume "b = 3"
    show ?thesis
    proof (cases "c = 24")
      case True
      have "y mod 400 = 0"
        by (rule mod_eqI [where q = "q + 1"])
           (use assms \<open>b = 3\<close> True in \<open>simp_all add: y_def\<close>)
      then show ?thesis by simp
    next
      case False
      have "y mod 100 = 4 * c + 4"
        by (rule mod_eqI [where q = "4 * q + b"])
           (use assms False in \<open>simp_all add: y_def\<close>)
      then show ?thesis using assms by simp
    qed
  qed
  with m4 show ?thesis
    by (simp only: isLeap_def y_def [symmetric])
qed

lemma absYear_spec:
  assumes "absYear D = (y, yd)"
  shows "daysSinceYear1 y + yd = D \<and> 0 \<le> yd \<and> yd < yearLen y"
proof -
  obtain n400 d1 where n400: "D = 146097 * n400 + d1" "0 \<le> d1" "d1 < 146097"
      "D div 146097 = n400"
    using div_mod_split [of 146097 D] by auto
  obtain c r1 where c: "d1 = 36524 * c + r1" "0 \<le> r1" "r1 < 36524" "d1 div 36524 = c"
    using div_mod_split [of 36524 d1] by auto
  define n100 where "n100 = c - c div 4"
  define d2 where "d2 = d1 - 36524 * n100"
  obtain n4 d3 where n4: "d2 = 1461 * n4 + d3" "0 \<le> d3" "d3 < 1461" "d2 div 1461 = n4"
    using div_mod_split [of 1461 d2] by auto
  obtain e r3 where e: "d3 = 365 * e + r3" "0 \<le> r3" "r3 < 365" "d3 div 365 = e"
    using div_mod_split [of 365 d3] by auto
  define n1 where "n1 = e - e div 4"
  define d4 where "d4 = d3 - 365 * n1"
  have d1': "D - 146097 * n400 = d1" using n400(1) by simp
  have d3': "d2 - 1461 * n4 = d3" using n4(1) by simp
  have res: "absYear D = (400 * n400 + 100 * n100 + 4 * n4 + n1 + 1, d4)"
    unfolding absYear_def Let_def n400(4) d1' c(4) n100_def [symmetric] d2_def [symmetric]
      n4(4) d3' e(4) n1_def [symmetric] d4_def [symmetric]
    by (rule refl)
  have cb: "0 \<le> c" "c \<le> 4" using n400(2,3) c(1-3) by linarith+
  then consider "c = 0" | "c = 1" | "c = 2" | "c = 3" | "c = 4" by linarith
  then have "0 \<le> n100 \<and> n100 \<le> 3 \<and> (c \<le> 3 \<longrightarrow> n100 = c) \<and> (c = 4 \<longrightarrow> n100 = 3)"
    by cases (simp_all add: n100_def)
  then have n100: "0 \<le> n100" "n100 \<le> 3" "c \<le> 3 \<longrightarrow> n100 = c" "c = 4 \<longrightarrow> n100 = 3"
    by simp_all
  have d2: "0 \<le> d2" "d2 \<le> 36524" "d2 = 36524 \<longrightarrow> n100 = 3"
    using n100 cb c(1-3) n400(2,3) by (auto simp add: d2_def)
  have n4b: "0 \<le> n4" "n4 \<le> 24" using d2(1,2) n4(1-3) by linarith+
  have eb: "0 \<le> e" "e \<le> 4" using n4(2,3) e(1-3) by linarith+
  then consider "e = 0" | "e = 1" | "e = 2" | "e = 3" | "e = 4" by linarith
  then have "0 \<le> n1 \<and> n1 \<le> 3 \<and> (e \<le> 3 \<longrightarrow> n1 = e) \<and> (e = 4 \<longrightarrow> n1 = 3)"
    by cases (simp_all add: n1_def)
  then have n1: "0 \<le> n1" "n1 \<le> 3" "e \<le> 3 \<longrightarrow> n1 = e" "e = 4 \<longrightarrow> n1 = 3"
    by simp_all
  have d4: "0 \<le> d4" "d4 \<le> 365" "d4 = 365 \<longrightarrow> n1 = 3 \<and> d3 = 1460"
    using n1 eb e(1-3) n4(2,3) by (auto simp add: d4_def)
  from res assms have y: "y = 400 * n400 + 100 * n100 + 4 * n4 + n1 + 1" and yd: "yd = d4"
    by simp_all
  have dsy: "daysSinceYear1 y = 146097 * n400 + 36524 * n100 + 1461 * n4 + 365 * n1"
    unfolding y using n100(1,2) n4b n1(1,2) by (rule daysSinceYear1_decomp)
  have sum: "daysSinceYear1 y + yd = D"
    unfolding dsy yd d4_def using n4(1) n400(1) by (simp add: d2_def)
  have "yd < yearLen y"
  proof (cases "d4 = 365")
    case True
    with d4 have a: "n1 = 3" "d3 = 1460" by simp_all
    have "n4 \<noteq> 24 \<or> n100 = 3"
    proof (cases "n4 = 24")
      case True
      with a n4(1) have "d2 = 36524" by simp
      with d2 show ?thesis by simp
    qed simp
    then have "isLeap y"
      unfolding y using n100(1,2) n4b a(1) by (intro isLeap_decomp) simp_all
    then show ?thesis using True by (simp add: yearLen_def yd)
  next
    case False
    with d4 have "d4 < 365" by simp
    then show ?thesis by (simp add: yearLen_def yd)
  qed
  with sum d4(1) yd show ?thesis by simp
qed

lemma absYear_inverse:
  assumes "0 \<le> yd" "yd < yearLen y"
  shows "absYear (daysSinceYear1 y + yd) = (y, yd)"
proof -
  obtain y' yd' where r: "absYear (daysSinceYear1 y + yd) = (y', yd')"
    by (cases "absYear (daysSinceYear1 y + yd)") auto
  from absYear_spec [OF r]
  have s: "daysSinceYear1 y' + yd' = daysSinceYear1 y + yd" "0 \<le> yd'" "yd' < yearLen y'"
    by simp_all
  have "\<not> y < y'"
  proof
    assume "y < y'"
    from daysSinceYear1_mono [OF this] s assms show False by linarith
  qed
  moreover have "\<not> y' < y"
  proof
    assume "y' < y"
    from daysSinceYear1_mono [OF this] s assms show False by linarith
  qed
  ultimately have "y' = y" by linarith
  with s r show ?thesis by simp
qed

section \<open>The calendar: months and days\<close>

lemma int_cases_0_11:
  fixes k :: int
  assumes "0 \<le> k" "k \<le> 11"
  obtains "k = 0" | "k = 1" | "k = 2" | "k = 3" | "k = 4" | "k = 5" | "k = 6"
    | "k = 7" | "k = 8" | "k = 9" | "k = 10" | "k = 11"
proof -
  consider "k \<le> 3" | "4 \<le> k \<and> k \<le> 7" | "8 \<le> k" by linarith
  then show thesis
  proof cases
    case 1
    with assms consider "k = 0" | "k = 1" | "k = 2" | "k = 3" by linarith
    then show thesis using that by cases blast+
  next
    case 2
    then consider "k = 4" | "k = 5" | "k = 6" | "k = 7" by linarith
    then show thesis using that by cases blast+
  next
    case 3
    with assms consider "k = 8" | "k = 9" | "k = 10" | "k = 11" by linarith
    then show thesis using that by cases blast+
  qed
qed

lemma daysIn_monthLen: "daysIn m y = monthLen (isLeap y) m"
  by (simp add: daysIn_def monthLen_def)

lemma ydayMonthDay_spec:
  assumes "0 \<le> yd" "yd < (if leap then 366 else 365)" "ydayMonthDay leap yd = (m, d)"
  shows "1 \<le> m \<and> m \<le> 12 \<and> 1 \<le> d \<and> d \<le> monthLen leap m
         \<and> monthStart leap m + (d - 1) = yd"
proof (cases "leap \<and> yd = 59")
  case True
  with assms(3) have "m = 2" "d = 29" by (simp_all add: ydayMonthDay_def)
  with True show ?thesis by (simp add: monthLen_def monthStart_def daysBefore_def)
next
  case False
  define day where "day = (if leap \<and> 59 < yd then yd - 1 else yd)"
  obtain k r where k: "day = 31 * k + r" "0 \<le> r" "r < 31" "day div 31 = k"
    using div_mod_split [of 31 day] by auto
  have dayb: "0 \<le> day" "day < 365" using assms(1,2) by (auto simp add: day_def split: if_splits)
  have "0 \<le> k" "k \<le> 11" using dayb k(1-3) by linarith+
  note kc = int_cases_0_11 [OF this]
  have "ydayMonthDay leap yd = (if daysBefore (nat (day div 31) + 1) \<le> day
                      then (day div 31 + 2, day - daysBefore (nat (day div 31) + 1) + 1)
                      else (day div 31 + 1, day - daysBefore (nat (day div 31)) + 1))"
    unfolding ydayMonthDay_def Let_def day_def by (simp only: False if_False)
  with assms(3) have res: "(m, d) = (if daysBefore (nat k + 1) \<le> day
                      then (k + 2, day - daysBefore (nat k + 1) + 1)
                      else (k + 1, day - daysBefore (nat k) + 1))"
    unfolding k(4) by simp
  from kc show ?thesis
  proof cases
    case 1
    with res k(1-3) dayb assms(1,2) False show ?thesis
      by (auto simp add: monthLen_def monthStart_def daysBefore_def day_def split: if_splits)
  next
    case 2
    with res k(1-3) dayb assms(1,2) False show ?thesis
      by (auto simp add: monthLen_def monthStart_def daysBefore_def day_def split: if_splits)
  next
    case 3
    with res k(1-3) dayb assms(1,2) False show ?thesis
      by (auto simp add: monthLen_def monthStart_def daysBefore_def day_def split: if_splits)
  next
    case 4
    with res k(1-3) dayb assms(1,2) False show ?thesis
      by (auto simp add: monthLen_def monthStart_def daysBefore_def day_def split: if_splits)
  next
    case 5
    with res k(1-3) dayb assms(1,2) False show ?thesis
      by (auto simp add: monthLen_def monthStart_def daysBefore_def day_def split: if_splits)
  next
    case 6
    with res k(1-3) dayb assms(1,2) False show ?thesis
      by (auto simp add: monthLen_def monthStart_def daysBefore_def day_def split: if_splits)
  next
    case 7
    with res k(1-3) dayb assms(1,2) False show ?thesis
      by (auto simp add: monthLen_def monthStart_def daysBefore_def day_def split: if_splits)
  next
    case 8
    with res k(1-3) dayb assms(1,2) False show ?thesis
      by (auto simp add: monthLen_def monthStart_def daysBefore_def day_def split: if_splits)
  next
    case 9
    with res k(1-3) dayb assms(1,2) False show ?thesis
      by (auto simp add: monthLen_def monthStart_def daysBefore_def day_def split: if_splits)
  next
    case 10
    with res k(1-3) dayb assms(1,2) False show ?thesis
      by (auto simp add: monthLen_def monthStart_def daysBefore_def day_def split: if_splits)
  next
    case 11
    with res k(1-3) dayb assms(1,2) False show ?thesis
      by (auto simp add: monthLen_def monthStart_def daysBefore_def day_def split: if_splits)
  next
    case 12
    with res k(1-3) dayb assms(1,2) False show ?thesis
      by (auto simp add: monthLen_def monthStart_def daysBefore_def day_def split: if_splits)
  qed
qed

lemma month_cases:
  fixes m :: int
  assumes "1 \<le> m" "m \<le> 12"
  obtains "m = 1" | "m = 2" | "m = 3" | "m = 4" | "m = 5" | "m = 6" | "m = 7"
    | "m = 8" | "m = 9" | "m = 10" | "m = 11" | "m = 12"
proof -
  have "0 \<le> m - 1" "m - 1 \<le> 11" using assms by simp_all
  then show thesis
    by (rule int_cases_0_11) (use that in simp_all)
qed

lemma monthLen_bounds:
  assumes "1 \<le> m" "m \<le> 12"
  shows "28 \<le> monthLen leap m \<and> monthLen leap m \<le> 31"
  using assms by (rule month_cases) (simp_all add: monthLen_def daysBefore_def)

lemma monthStart_next:
  assumes "1 \<le> m" "m \<le> 11"
  shows "monthStart leap (m + 1) = monthStart leap m + monthLen leap m"
proof -
  from assms have "1 \<le> m" "m \<le> 12" by simp_all
  then show ?thesis
    by (rule month_cases) (use assms in \<open>simp_all add: monthLen_def monthStart_def daysBefore_def\<close>)
qed

lemma monthStart_bounds:
  assumes "1 \<le> m" "m \<le> 12"
  shows "0 \<le> monthStart leap m
         \<and> monthStart leap m + monthLen leap m = (if m = 1 then 31 else daysBefore (nat m) + (if leap then 1 else 0))"
  using assms by (rule month_cases) (simp_all add: monthLen_def monthStart_def daysBefore_def)

lemma monthStart_end:
  assumes "1 \<le> m" "m \<le> 12"
  shows "monthStart leap m + monthLen leap m \<le> (if leap then 366 else 365)"
  using assms by (rule month_cases) (simp_all add: monthLen_def monthStart_def daysBefore_def)

lemma monthStart_mono:
  assumes "1 \<le> m" "m < m'" "m' \<le> 12"
  shows "monthStart leap m + monthLen leap m \<le> monthStart leap m'"
proof -
  have "m + 1 \<le> m'" using assms by simp
  then have "m' \<le> 12 \<longrightarrow> monthStart leap m + monthLen leap m \<le> monthStart leap m'"
  proof (induction m' rule: int_ge_induct)
    case base
    show ?case using assms(1) by (simp add: monthStart_next)
  next
    case (step i)
    show ?case
    proof
      assume i: "i + 1 \<le> 12"
      with step assms(1) have b: "1 \<le> i" "i \<le> 11" by simp_all
      then have "monthStart leap (i + 1) = monthStart leap i + monthLen leap i"
        by (rule monthStart_next)
      moreover have "28 \<le> monthLen leap i" using b monthLen_bounds [of i leap] by simp
      ultimately show "monthStart leap m + monthLen leap m \<le> monthStart leap (i + 1)"
        using step i by simp
    qed
  qed
  with assms(3) show ?thesis by simp
qed

lemma month_day_unique:
  assumes "1 \<le> m" "m \<le> 12" "1 \<le> d" "d \<le> monthLen leap m"
    and "1 \<le> m'" "m' \<le> 12" "1 \<le> d'" "d' \<le> monthLen leap m'"
    and eq: "monthStart leap m + (d - 1) = monthStart leap m' + (d' - 1)"
  shows "m = m' \<and> d = d'"
proof -
  have "\<not> m < m'"
  proof
    assume "m < m'"
    from monthStart_mono [OF assms(1) this assms(6), of leap] assms(4,7) eq
    show False by linarith
  qed
  moreover have "\<not> m' < m"
  proof
    assume "m' < m"
    from monthStart_mono [OF assms(5) this assms(2), of leap] assms(8,3) eq
    show False by linarith
  qed
  ultimately have "m = m'" by linarith
  with eq show ?thesis by simp
qed

lemma ydayMonthDay_inverse:
  assumes "1 \<le> m" "m \<le> 12" "1 \<le> d" "d \<le> monthLen leap m"
  shows "ydayMonthDay leap (monthStart leap m + (d - 1)) = (m, d)"
proof -
  define yd where "yd = monthStart leap m + (d - 1)"
  have yd: "0 \<le> yd" "yd < (if leap then 366 else 365)"
    using monthStart_bounds [OF assms(1,2), of leap] monthStart_end [OF assms(1,2), of leap]
      assms(3,4)
    by (simp_all add: yd_def split: if_splits)
  obtain m' d' where r: "ydayMonthDay leap yd = (m', d')"
    by (cases "ydayMonthDay leap yd") auto
  from ydayMonthDay_spec [OF yd r]
  have s: "1 \<le> m'" "m' \<le> 12" "1 \<le> d'" "d' \<le> monthLen leap m'"
    "monthStart leap m' + (d' - 1) = yd"
    by simp_all
  have "m = m' \<and> d = d'"
    using assms s(1-4)
    by (rule month_day_unique) (simp add: s(5) yd_def)
  with r show ?thesis by (simp add: yd_def)
qed

lemma unixDays_alt:
  "unixDays y m d = daysSinceYear1 y + (monthStart (isLeap y) m + (d - 1)) - 719162"
  by (simp add: unixDays_def monthStart_def)

lemma civilFromDays_valid:
  assumes "civilFromDays n = (y, m, d)"
  shows "validDate y m d \<and> unixDays y m d = n"
proof -
  obtain y' yd where a: "absYear (n + 719162) = (y', yd)"
    by (cases "absYear (n + 719162)") auto
  obtain m' d' where b: "ydayMonthDay (isLeap y') yd = (m', d')"
    by (cases "ydayMonthDay (isLeap y') yd") auto
  from assms a b have e: "y = y'" "m = m'" "d = d'"
    by (simp_all add: civilFromDays_def)
  from absYear_spec [OF a] have ys: "daysSinceYear1 y' + yd = n + 719162" "0 \<le> yd"
    "yd < (if isLeap y' then 366 else 365)"
    by (simp_all add: yearLen_def)
  from ydayMonthDay_spec [OF ys(2,3) b]
  have ms: "1 \<le> m'" "m' \<le> 12" "1 \<le> d'" "d' \<le> monthLen (isLeap y') m'"
    "monthStart (isLeap y') m' + (d' - 1) = yd"
    by simp_all
  show ?thesis
    unfolding e validDate_def unixDays_alt daysIn_monthLen
    using ms ys(1) by simp
qed

lemma civilFromDays_unixDays:
  assumes "validDate y m d"
  shows "civilFromDays (unixDays y m d) = (y, m, d)"
proof -
  from assms have v: "1 \<le> m" "m \<le> 12" "1 \<le> d" "d \<le> monthLen (isLeap y) m"
    by (simp_all add: validDate_def daysIn_monthLen)
  define yd where "yd = monthStart (isLeap y) m + (d - 1)"
  have yd: "0 \<le> yd" "yd < yearLen y"
    using monthStart_bounds [OF v(1,2), of "isLeap y"] monthStart_end [OF v(1,2), of "isLeap y"]
      v(3,4)
    by (simp_all add: yd_def yearLen_def split: if_splits)
  have "unixDays y m d + 719162 = daysSinceYear1 y + yd"
    by (simp add: unixDays_alt yd_def)
  then have "absYear (unixDays y m d + 719162) = (y, yd)"
    using absYear_inverse [OF yd] by simp
  moreover have "ydayMonthDay (isLeap y) yd = (m, d)"
    unfolding yd_def using v by (rule ydayMonthDay_inverse)
  ultimately show ?thesis
    by (simp add: civilFromDays_def)
qed

section \<open>Decimal rendering and parsing\<close>

lemma digit_of_digit_char: "n < 10 \<Longrightarrow> digit_of (digit_char n) = Some n"
proof -
  assume "n < 10"
  then have "n \<in> {0, 1, 2, 3, 4, 5, 6, 7, 8, 9}" by auto
  then show ?thesis
    by (auto simp add: digit_of_def digit_char_def)
qed

lemma digit_char_digit_of: "digit_of c = Some n \<Longrightarrow> digit_char n = c \<and> n < 10"
  by (auto simp add: digit_of_def digit_char_def split: if_splits)

lemma digit_char_0: "digit_char 0 = CHR ''0''"
  by (simp add: digit_char_def)


lemma utoa_step:
  assumes "r < 10"
  shows "utoa (10 * q + r) = (if q = 0 then [digit_char r] else utoa q @ [digit_char r])"
proof (cases "q = 0")
  case True
  with assms show ?thesis by (subst utoa.simps) simp
next
  case False
  with assms have "\<not> 10 * q + r < 10" "(10 * q + r) div 10 = q" "(10 * q + r) mod 10 = r"
    by simp_all
  with False show ?thesis by (subst utoa.simps) simp
qed

lemma utoa_digit: "r < 10 \<Longrightarrow> utoa r = [digit_char r]"
  by (subst utoa.simps) simp

lemma utoa_length_ge: "10 ^ k \<le> n \<Longrightarrow> k < length (utoa n)"
proof (induction k arbitrary: n)
  case 0
  then show ?case using utoa_nonempty [of n] by (cases "utoa n") simp_all
next
  case (Suc k)
  then have n: "\<not> n < 10" "10 ^ k \<le> n div 10"
  proof -
    have "(1::nat) \<le> 10 ^ k" by simp
    then have "(10::nat) \<le> 10 ^ Suc k" by simp
    with Suc.prems show "\<not> n < 10" by linarith
    from Suc.prems have "10 * 10 ^ k \<le> n" by simp
    then show "10 ^ k \<le> n div 10" by simp
  qed
  from Suc.IH [OF n(2)] have "k < length (utoa (n div 10))" .
  moreover have "utoa n = utoa (n div 10) @ [digit_char (n mod 10)]"
    using n(1) by (subst utoa.simps) simp
  ultimately show ?case by simp
qed

lemma pad2:
  assumes "a < 10" "b < 10"
  shows "replicate (2 - length (utoa (num2 a b))) CHR ''0'' @ utoa (num2 a b)
         = [digit_char a, digit_char b]"
proof -
  have s1: "utoa (num2 a b) = (if a = 0 then [digit_char b] else utoa a @ [digit_char b])"
    unfolding num2_def using assms(2) by (rule utoa_step)
  have s2: "utoa a = [digit_char a]"
    using assms(1) by (rule utoa_digit)
  show ?thesis
    unfolding s1 s2 by (cases "a = 0") (simp_all add: digit_char_0 numeral_2_eq_2)
qed

lemma pad4:
  assumes "a < 10" "b < 10" "c < 10" "d < 10"
  shows "replicate (4 - length (utoa (num4 a b c d))) CHR ''0'' @ utoa (num4 a b c d)
         = [digit_char a, digit_char b, digit_char c, digit_char d]"
proof -
  have s1: "utoa (num4 a b c d)
            = (if 10 * (10 * a + b) + c = 0 then [digit_char d]
               else utoa (10 * (10 * a + b) + c) @ [digit_char d])"
    unfolding num4_def using assms(4) by (rule utoa_step)
  have s2: "utoa (10 * (10 * a + b) + c)
            = (if 10 * a + b = 0 then [digit_char c] else utoa (10 * a + b) @ [digit_char c])"
    using assms(3) by (rule utoa_step)
  have s3: "utoa (10 * a + b) = (if a = 0 then [digit_char b] else utoa a @ [digit_char b])"
    using assms(2) by (rule utoa_step)
  have s4: "utoa a = [digit_char a]"
    using assms(1) by (rule utoa_digit)
  have r: "replicate 3 CHR ''0'' = ''000''" "replicate 2 CHR ''0'' = ''00''"
    by (simp_all add: numeral_3_eq_3 numeral_2_eq_2)
  show ?thesis
    unfolding s1 s2 s3 s4
    by (cases "a = 0"; cases "b = 0"; cases "c = 0") (simp_all add: digit_char_0 r)
qed

lemma num2_decomp:
  assumes "n < 100"
  obtains a b where "a < 10" "b < 10" "n = num2 a b"
proof
  show "n div 10 < 10" using assms by simp
  show "n mod 10 < 10" by simp
  show "n = num2 (n div 10) (n mod 10)" by (simp add: num2_def)
qed

lemma num4_decomp:
  assumes "n < 10000"
  obtains a b c d where "a < 10" "b < 10" "c < 10" "d < 10" "n = num4 a b c d"
proof
  show "n div 10 div 10 div 10 < 10" using assms by simp
  show "n div 10 div 10 mod 10 < 10" "n div 10 mod 10 < 10" "n mod 10 < 10" by simp_all
  show "n = num4 (n div 10 div 10 div 10) (n div 10 div 10 mod 10) (n div 10 mod 10) (n mod 10)"
    by (simp add: num4_def)
qed

lemma num_bounds:
  "a < 10 \<Longrightarrow> b < 10 \<Longrightarrow> num2 a b < 100"
  "a < 10 \<Longrightarrow> b < 10 \<Longrightarrow> c < 10 \<Longrightarrow> d < 10 \<Longrightarrow> num4 a b c d < 10000"
  by (simp_all add: num2_def num4_def)

lemma appendInt_num2:
  "a < 10 \<Longrightarrow> b < 10 \<Longrightarrow> appendInt (int (num2 a b)) 2 = [digit_char a, digit_char b]"
  by (simp add: appendInt_def pad2)

lemma appendInt_num4:
  "a < 10 \<Longrightarrow> b < 10 \<Longrightarrow> c < 10 \<Longrightarrow> d < 10 \<Longrightarrow>
   appendInt (int (num4 a b c d)) 4 = [digit_char a, digit_char b, digit_char c, digit_char d]"
  by (simp add: appendInt_def pad4)

lemma fmt_d0_num2:
  "a < 10 \<Longrightarrow> b < 10 \<Longrightarrow> fmt_d0 2 (int (num2 a b)) = [digit_char a, digit_char b]"
  by (simp add: fmt_d0_def pad2)

lemma fmt_d0_num4:
  "a < 10 \<Longrightarrow> b < 10 \<Longrightarrow> c < 10 \<Longrightarrow> d < 10 \<Longrightarrow>
   fmt_d0 4 (int (num4 a b c d)) = [digit_char a, digit_char b, digit_char c, digit_char d]"
  by (simp add: fmt_d0_def pad4)

lemma digits_val_2:
  "digits_val 0 [c1, c2] = Some n \<longleftrightarrow>
     (\<exists>a b. digit_of c1 = Some a \<and> digit_of c2 = Some b \<and> n = num2 a b)"
  by (auto simp add: num2_def split: option.splits)

lemma digits_val_4:
  "digits_val 0 [c1, c2, c3, c4] = Some n \<longleftrightarrow>
     (\<exists>a b c d. digit_of c1 = Some a \<and> digit_of c2 = Some b \<and> digit_of c3 = Some c
        \<and> digit_of c4 = Some d \<and> n = num4 a b c d)"
  by (auto simp add: num4_def split: option.splits)

section \<open>Date strings\<close>

lemma skip_Some: "skip ch v = Some r \<longleftrightarrow> v = ch # r"
  by (cases v) (auto simp add: skip_def)

lemma getnum_Cons2:
  "getnum (c1 # c2 # r) =
     (case digits_val 0 [c1, c2] of None \<Rightarrow> None | Some n \<Rightarrow> Some (int n, r))"
  by (simp add: getnum_def split: option.splits)

lemma getnum_Some: "getnum v = Some (n, r) \<Longrightarrow> \<exists>c1 c2. v = c1 # c2 # r"
  by (auto simp add: getnum_def split: list.splits option.splits)

lemma digits_val_hd: "digits_val 0 (c # cs) = Some n \<Longrightarrow> isDigit c"
  by (auto simp add: isDigit_def split: option.splits)

lemma time_Parse_length:
  assumes "time_Parse s = Inr t"
  shows "length s = 10"
proof -
  from assms have l: "4 \<le> length s"
    by (auto simp add: time_Parse_def split: if_splits)
  from assms obtain v1 n1 v2 v3 n2 where
    "skip CHR ''-'' (drop 4 s) = Some v1" "getnum v1 = Some (n1, v2)"
    "skip CHR ''-'' v2 = Some v3" "getnum v3 = Some (n2, [])"
    by (auto simp add: time_Parse_def split: if_splits option.splits)
  then obtain a b c d where "drop 4 s = [CHR ''-'', a, b, CHR ''-'', c, d]"
    by (auto simp add: skip_Some dest!: getnum_Some)
  then have "length (drop 4 s) = 6" by simp
  with l show ?thesis by simp
qed

lemma time_Parse_error: "time_Parse s = Inl e \<Longrightarrow> e = HostParseError"
  by (auto simp add: time_Parse_def split: if_splits option.splits)

lemma length_10_explicit:
  assumes "length s = 10"
  obtains c0 c1 c2 c3 c4 c5 c6 c7 c8 c9 where "s = [c0, c1, c2, c3, c4, c5, c6, c7, c8, c9]"
proof -
  from assms have "length s = Suc (Suc (Suc (Suc (Suc (Suc (Suc (Suc (Suc (Suc 0)))))))))"
    by simp
  then show thesis
    using that by (auto simp add: length_Suc_conv)
qed

lemma time_Parse_fields:
  "time_Parse s =
     (case dateFields s of
        None \<Rightarrow> Inl HostParseError
      | Some (y, m, d) \<Rightarrow>
          if validDate y m d then Inr (time_Date y m d) else Inl HostParseError)"
proof (cases "length s = 10")
  case True
  then obtain c0 c1 c2 c3 c4 c5 c6 c7 c8 c9
    where s: "s = [c0, c1, c2, c3, c4, c5, c6, c7, c8, c9]"
    by (rule length_10_explicit)
  show ?thesis
  proof (cases "digits_val 0 [c0, c1, c2, c3]")
    case None
    then show ?thesis
      by (simp add: s time_Parse_def dateFields_def)
  next
    case (Some y)
    then have "isDigit c0" by (rule digits_val_hd)
    with Some show ?thesis
      by (auto simp add: s time_Parse_def dateFields_def skip_def getnum_Cons2 validDate_def
          split: option.splits)
  qed
next
  case False
  then have "dateFields s = None" by (simp add: dateFields_def)
  moreover have "time_Parse s = Inl HostParseError"
  proof (cases "time_Parse s")
    case (Inl e)
    then show ?thesis using time_Parse_error by simp
  next
    case (Inr t)
    with False time_Parse_length show ?thesis by blast
  qed
  ultimately show ?thesis by simp
qed

section \<open>Parsing a time of day\<close>

lemma split_on_no_sep: "sep \<notin> set xs \<Longrightarrow> split_on sep cur xs = [rev cur @ xs]"
  by (induction xs arbitrary: cur) auto

lemma split_on_sep:
  "sep \<notin> set xs \<Longrightarrow> split_on sep cur (xs @ sep # rest) = (rev cur @ xs) # split_on sep [] rest"
  by (induction xs arbitrary: cur) auto

lemma split_on_nonempty: "split_on sep cur xs \<noteq> []"
  by (induction xs arbitrary: cur) auto

lemma parseTime_Inr_iff:
  "parseTime lib s = Inr r \<longleftrightarrow>
     (2 \<le> length (conv_Split lib s CHR '':'')
      \<and> (\<exists>h m. conv_Int lib (conv_Split lib s CHR '':'' ! 0) = Some h
            \<and> conv_Int lib (conv_Split lib s CHR '':'' ! 1) = Some m
            \<and> 0 \<le> sint h \<and> sint h \<le> 23 \<and> 0 \<le> sint m \<and> sint m \<le> 59
            \<and> r = ucast (h * 60 + m)))"
  by (auto simp add: parseTime_def Let_def split: option.splits)

lemma ucast_of_int_down: "(ucast (word_of_int k :: int64) :: int16) = word_of_int k"
proof -
  have "(ucast (word_of_int k :: int64) :: int16) = word_of_int (take_bit 64 k)"
    by (simp only: unsigned_of_int) simp
  also have "\<dots> = word_of_int k"
    by (simp only: word_of_int_eq_iff) simp
  finally show ?thesis .
qed

lemma minutes_value:
  fixes h m :: int64
  assumes "0 \<le> sint h" "sint h \<le> 23" "0 \<le> sint m" "sint m \<le> 59"
  shows "sint (ucast (h * 60 + m) :: int16) = 60 * sint h + sint m"
proof -
  have hm: "h = word_of_int (sint h)" "m = word_of_int (sint m)" by simp_all
  define a where "a = sint h"
  define b where "b = sint m"
  have rng: "0 \<le> 60 * a + b" "60 * a + b \<le> 1439"
    using assms by (simp_all add: a_def b_def)
  have "h * 60 + m = (word_of_int (a * 60 + b) :: int64)"
    by (simp add: a_def b_def)
  then have "(ucast (h * 60 + m) :: int16) = ucast (word_of_int (a * 60 + b) :: int64)"
    by simp
  also have "\<dots> = (word_of_int (a * 60 + b) :: int16)"
    by (rule ucast_of_int_down)
  also have "sint \<dots> = a * 60 + b"
    using rng by (intro sint_word_of_int_range) simp_all
  finally show ?thesis by (simp add: a_def b_def)
qed












lemma parseTime_same_parts:
  assumes len: "2 \<le> length (conv_Split lib s CHR '':'')"
  and tk: "take 2 (conv_Split lib s' CHR '':'') = take 2 (conv_Split lib s CHR '':'')"
  shows "parseTime lib s' = parseTime lib s"
proof -
  from len tk have "length (take 2 (conv_Split lib s' CHR '':'')) = 2" by simp
  then have len': "2 \<le> length (conv_Split lib s' CHR '':'')" by simp
  have "conv_Split lib s' CHR '':'' ! 0 = conv_Split lib s CHR '':'' ! 0"
    using arg_cong [OF tk, of "\<lambda>xs. xs ! 0"] by simp
  moreover have "conv_Split lib s' CHR '':'' ! 1 = conv_Split lib s CHR '':'' ! 1"
    using arg_cong [OF tk, of "\<lambda>xs. xs ! 1"] by simp
  moreover have "\<not> length (conv_Split lib s CHR '':'') < 2"
    "\<not> length (conv_Split lib s' CHR '':'') < 2"
    using len len' by simp_all
  ultimately show ?thesis
    unfolding parseTime_def Let_def by (simp only: if_False)
qed

lemma parseTime_HHMMSS:
  assumes "CHR '':'' \<notin> set hh \<and> CHR '':'' \<notin> set mm"
  shows "parseTime stdfmt (hh @ '':'' @ mm @ '':'' @ ss) = parseTime stdfmt (hh @ '':'' @ mm)"
proof -
  from assms have a: "conv_Split stdfmt (hh @ '':'' @ mm) CHR '':'' = [hh, mm]"
    by (simp add: stdfmt_def split_on_sep split_on_no_sep)
  from assms have b: "conv_Split stdfmt (hh @ '':'' @ mm @ '':'' @ ss) CHR '':''
                     = hh # mm # split_on CHR '':'' [] ss"
    by (simp add: stdfmt_def split_on_sep)
  show ?thesis
    by (rule parseTime_same_parts) (use a b in simp_all)
qed

theorem parseTime_validates_seconds_counterexample:
  "parseTime stdfmt ''08:30:xx'' = Inr 510 \<and> parseTime stdfmt ''08:30:99'' = Inr 510"
  by code_simp

text \<open>
  Claim C6, amended.  The seconds component is neither parsed nor validated: only the
  first two colon-separated parts are read.  \<open>ParseTime("08:30:45")\<close> and
  \<open>ParseTime("08:30")\<close> both succeed with 510; every successful result is
  \<open>60*hours + minutes\<close> of the first two parts, with hours in 0..23 and minutes in 0..59;
  two inputs whose first two parts agree have the same result; and with the plain split,
  \<open>HH:MM:SS\<close> has the result of \<open>HH:MM\<close> for every text \<open>SS\<close>.
\<close>

theorem parseTime_ignores_seconds:
  "parseTime stdfmt ''08:30:45'' = Inr 510
   \<and> parseTime stdfmt ''08:30'' = Inr 510
   \<and> (parseTime lib s = Inr r \<longrightarrow>
        (\<exists>h m. conv_Int lib (conv_Split lib s CHR '':'' ! 0) = Some h
            \<and> conv_Int lib (conv_Split lib s CHR '':'' ! 1) = Some m
            \<and> 0 \<le> sint h \<and> sint h \<le> 23 \<and> 0 \<le> sint m \<and> sint m \<le> 59
            \<and> sint r = 60 * sint h + sint m))
   \<and> (2 \<le> length (conv_Split lib s CHR '':'')
        \<and> take 2 (conv_Split lib s' CHR '':'') = take 2 (conv_Split lib s CHR '':'')
        \<longrightarrow> parseTime lib s' = parseTime lib s)
   \<and> (CHR '':'' \<notin> set hh \<and> CHR '':'' \<notin> set mm \<longrightarrow>
        parseTime stdfmt (hh @ '':'' @ mm @ '':'' @ ss) = parseTime stdfmt (hh @ '':'' @ mm))"
proof -
  have 1: "parseTime stdfmt ''08:30:45'' = Inr 510" by code_simp
  have 2: "parseTime stdfmt ''08:30'' = Inr 510" by code_simp
  have 3: "\<exists>h m. conv_Int lib (conv_Split lib s CHR '':'' ! 0) = Some h
            \<and> conv_Int lib (conv_Split lib s CHR '':'' ! 1) = Some m
            \<and> 0 \<le> sint h \<and> sint h \<le> 23 \<and> 0 \<le> sint m \<and> sint m \<le> 59
            \<and> sint r = 60 * sint h + sint m"
    if "parseTime lib s = Inr r"
  proof -
    from that obtain h m where
      hm: "conv_Int lib (conv_Split lib s CHR '':'' ! 0) = Some h"
          "conv_Int lib (conv_Split lib s CHR '':'' ! 1) = Some m"
          "0 \<le> sint h" "sint h \<le> 23" "0 \<le> sint m" "sint m \<le> 59"
          "r = ucast (h * 60 + m)"
      unfolding parseTime_Inr_iff by blast
    from hm(3-6) have "sint r = 60 * sint h + sint m"
      unfolding hm(7) by (rule minutes_value)
    with hm show ?thesis by blast
  qed
  show ?thesis
  proof (intro conjI impI)
    show "parseTime stdfmt ''08:30:45'' = Inr 510" by (fact 1)
    show "parseTime stdfmt ''08:30'' = Inr 510" by (fact 2)
    show "\<exists>h m. conv_Int lib (conv_Split lib s CHR '':'' ! 0) = Some h
            \<and> conv_Int lib (conv_Split lib s CHR '':'' ! 1) = Some m
            \<and> 0 \<le> sint h \<and> sint h \<le> 23 \<and> 0 \<le> sint m \<and> sint m \<le> 59
            \<and> sint r = 60 * sint h + sint m"
      if "parseTime lib s = Inr r" using that by (rule 3)
    show "parseTime lib s' = parseTime lib s"
      if "2 \<le> length (conv_Split lib s CHR '':'')
        \<and> take 2 (conv_Split lib s' CHR '':'') = take 2 (conv_Split lib s CHR '':'')"
      using that by (elim conjE) (rule parseTime_same_parts)
    show "parseTime stdfmt (hh @ '':'' @ mm @ '':'' @ ss) = parseTime stdfmt (hh @ '':'' @ mm)"
      if "CHR '':'' \<notin> set hh \<and> CHR '':'' \<notin> set mm" using that by (rule parseTime_HHMMSS)
  qed
qed

theorem parseTime_ignores_seconds_witness:
  "parseTime stdfmt ''08:30:45'' = parseTime stdfmt ''08:30''
   \<and> parseTime stdfmt ''08:30:xx'' = parseTime stdfmt ''08:30''
   \<and> (\<exists>h m. conv_Int stdfmt (conv_Split stdfmt ''23:59:07'' CHR '':'' ! 0) = Some h
          \<and> conv_Int stdfmt (conv_Split stdfmt ''23:59:07'' CHR '':'' ! 1) = Some m
          \<and> sint (1439 :: int16) = 60 * sint h + sint m)"
proof -
  have c: "CHR '':'' \<notin> set ''08'' \<and> CHR '':'' \<notin> set ''30''" by simp
  have a: "parseTime stdfmt (''08'' @ '':'' @ ''30'' @ '':'' @ ''45'')
           = parseTime stdfmt (''08'' @ '':'' @ ''30'')"
    by (rule parseTime_ignores_seconds [of stdfmt "[]" 0 "[]" "''08''" "''30''" "''45''",
          THEN conjunct2, THEN conjunct2, THEN conjunct2, THEN conjunct2, THEN mp, OF c])
  have b: "parseTime stdfmt (''08'' @ '':'' @ ''30'' @ '':'' @ ''xx'')
           = parseTime stdfmt (''08'' @ '':'' @ ''30'')"
    by (rule parseTime_ignores_seconds [of stdfmt "[]" 0 "[]" "''08''" "''30''" "''xx''",
          THEN conjunct2, THEN conjunct2, THEN conjunct2, THEN conjunct2, THEN mp, OF c])
  have p: "parseTime stdfmt ''23:59:07'' = Inr 1439" by code_simp
  have d: "\<exists>h m. conv_Int stdfmt (conv_Split stdfmt ''23:59:07'' CHR '':'' ! 0) = Some h
          \<and> conv_Int stdfmt (conv_Split stdfmt ''23:59:07'' CHR '':'' ! 1) = Some m
          \<and> sint (1439 :: int16) = 60 * sint h + sint m"
    by (rule parseTime_ignores_seconds [of stdfmt "''23:59:07''" 1439 "[]" "[]" "[]" "[]",
          THEN conjunct2, THEN conjunct2, THEN conjunct1, THEN mp, OF p, THEN exE]) blast
  from a b d show ?thesis by simp
qed

lemma validDateString_shape:
  "validDateString s \<Longrightarrow> length s = 10 \<and> s ! 4 = CHR ''-'' \<and> s ! 7 = CHR ''-''"
  by (auto simp add: validDateString_def dateFields_def split: if_splits option.splits)

theorem FormatDate_native_shape_counterexample:
  "length ''2024-02-30'' = 10 \<and> ''2024-02-30'' ! 4 = CHR ''-'' \<and> ''2024-02-30'' ! 7 = CHR ''-''
   \<and> timeServer_FormatDate \<lparr>tzOffsetMinutes = 0\<rparr> (AnyString ''2024-02-30'') = []
   \<and> timeServer_FormatDate \<lparr>tzOffsetMinutes = 0\<rparr> (AnyString ''abcd-ef-gh'') = []"
  by code_simp

text \<open>
  Claim C7, amended.  In the bridged backend \<open>FormatDate\<close> returns a string unchanged
  exactly when it is 10 characters long with \<open>'-'\<close> at positions 4 and 7, and the empty
  string otherwise.  In the native backend it returns a string unchanged exactly when
  \<open>time.Parse\<close> accepts it under the layout \<open>2006-01-02\<close>, that is, when it is a valid
  \<open>YYYY-MM-DD\<close> string (that shape, digits at the other eight positions, a month in
  01..12 and a day that exists in that month of that year), and the empty string
  otherwise.
\<close>

theorem FormatDate_string_passthrough:
  "timeClient_FormatDate js st (AnyString v)
     = (if length v = 10 \<and> v ! 4 = CHR ''-'' \<and> v ! 7 = CHR ''-'' then v else [])
   \<and> timeServer_FormatDate st (AnyString v) = (if validDateString v then v else [])
   \<and> timeClient_FormatDate js st (AnyString ''2024-02-30'') = ''2024-02-30''
   \<and> timeServer_FormatDate st (AnyString ''2024-01-15'') = ''2024-01-15''
   \<and> timeClient_FormatDate js st (AnyString ''2024/01/15'') = []
   \<and> timeServer_FormatDate st (AnyString ''2024/01/15'') = []"
proof -
  have c: "timeClient_FormatDate js st (AnyString w)
     = (if length w = 10 \<and> w ! 4 = CHR ''-'' \<and> w ! 7 = CHR ''-'' then w else [])" for w
    by (simp add: timeClient_FormatDate_def)
  have n: "timeServer_FormatDate st (AnyString w) = (if validDateString w then w else [])" for w
    by (simp add: timeServer_FormatDate_def time_Parse_fields validDateString_def
        split: option.splits)
  have v1: "validDateString ''2024-01-15''" by code_simp
  have v2: "\<not> validDateString ''2024/01/15''" by code_simp
  show ?thesis
    unfolding c n using v1 v2 by simp
qed

lemma timeServer_ParseDate_fields:
  "timeServer_ParseDate s =
     (case dateFields s of
        None \<Rightarrow> Inl HostParseError
      | Some (y, m, d) \<Rightarrow>
          if validDate y m d then Inr (time_UnixNano (time_Date y m d))
          else Inl HostParseError)"
  by (simp add: timeServer_ParseDate_def time_Parse_fields split: option.splits)

lemma timeServer_ParseDate_invalid:
  "\<not> validDateString s \<Longrightarrow> isl (timeServer_ParseDate s)"
  by (auto simp add: timeServer_ParseDate_fields validDateString_def split: option.splits)

lemma validDate_ranges:
  assumes "validDate y m d"
  shows "1 \<le> m \<and> m \<le> 12 \<and> 1 \<le> d \<and> d \<le> 31"
proof -
  from assms have v: "1 \<le> m" "m \<le> 12" "1 \<le> d" "d \<le> monthLen (isLeap y) m"
    by (simp_all add: validDate_def daysIn_monthLen)
  with monthLen_bounds [OF v(1,2), of "isLeap y"] show ?thesis by simp
qed

lemma fmt_d0_2_digits:
  assumes "0 \<le> x" "x < 100"
  obtains a b where "a < 10" "b < 10" "x = int (num2 a b)"
    "fmt_d0 2 x = [digit_char a, digit_char b]"
proof -
  from assms have "nat x < 100" by simp
  then obtain a b where ab: "a < 10" "b < 10" "nat x = num2 a b"
    by (rule num2_decomp)
  from ab(3) assms(1) have x: "x = int (num2 a b)" by simp
  have "fmt_d0 2 x = [digit_char a, digit_char b]"
    unfolding x using ab(1,2) by (rule fmt_d0_num2)
  with ab(1,2) x show thesis by (rule that)
qed

lemma fmt_d0_neg_hd: "x < 0 \<Longrightarrow> hd (fmt_d0 w x) = CHR ''-''"
  by (simp add: fmt_d0_def Let_def)

lemma fmt_d0_4_digits:
  assumes "0 \<le> x" "length (fmt_d0 4 x) = 4"
  obtains a b c d where "a < 10" "b < 10" "c < 10" "d < 10" "x = int (num4 a b c d)"
    "fmt_d0 4 x = [digit_char a, digit_char b, digit_char c, digit_char d]"
proof -
  have "nat x < 10000"
  proof (rule ccontr)
    assume "\<not> nat x < 10000"
    then have "10 ^ 4 \<le> nat x" by simp
    then have "4 < length (utoa (nat x))" by (rule utoa_length_ge)
    with assms show False by (simp add: fmt_d0_def Let_def)
  qed
  then obtain a b c d where ab: "a < 10" "b < 10" "c < 10" "d < 10" "nat x = num4 a b c d"
    by (rule num4_decomp)
  from ab(5) assms(1) have x: "x = int (num4 a b c d)" by simp
  have "fmt_d0 4 x = [digit_char a, digit_char b, digit_char c, digit_char d]"
    unfolding x using ab(1-4) by (rule fmt_d0_num4)
  with ab(1-4) x show thesis by (rule that)
qed

lemma dateFields_rendered:
  assumes "a < 10" "b < 10" "c < 10" "d < 10" "e < 10" "f < 10" "g < 10" "h < 10"
  shows "dateFields ([digit_char a, digit_char b, digit_char c, digit_char d] @ ''-''
            @ [digit_char e, digit_char f] @ ''-'' @ [digit_char g, digit_char h])
         = Some (int (num4 a b c d), int (num2 e f), int (num2 g h))"
  using assms
  by (simp add: dateFields_def digit_of_digit_char num4_def num2_def)

lemma timeClient_ParseDate_Inr:
  assumes "timeClient_ParseDate js s = Inr v"
  obtains ms y m d where
    "Date_parse js (s @ ''T00:00:00Z'') = Some ms"
    "js_utc_date ms = (y, m, d)" "validDate y m d"
    "s = fmt_d0 4 y @ ''-'' @ fmt_d0 2 m @ ''-'' @ fmt_d0 2 d"
    "length s = 10" "v = word_of_int ms * 1000000"
proof -
  from assms have sh: "length s = 10"
    by (auto simp add: timeClient_ParseDate_def split: if_splits)
  from assms obtain ms where ms: "Date_parse js (s @ ''T00:00:00Z'') = Some ms"
    by (auto simp add: timeClient_ParseDate_def split: if_splits option.splits)
  obtain y m d where f: "js_utc_date ms = (y, m, d)"
    by (cases "js_utc_date ms") auto
  from assms sh ms f have r: "s = fmt_d0 4 y @ ''-'' @ fmt_d0 2 m @ ''-'' @ fmt_d0 2 d"
    and v: "v = word_of_int ms * 1000000"
    by (auto simp add: timeClient_ParseDate_def Let_def split: if_splits)
  from f have vd: "validDate y m d"
    unfolding js_utc_date_def by (rule civilFromDays_valid [THEN conjunct1])
  from ms f vd r sh v show thesis by (rule that)
qed

lemma timeClient_ParseDate_valid:
  assumes "timeClient_ParseDate js s = Inr v" "hd s \<noteq> CHR ''-''"
  shows "validDateString s"
proof -
  from assms(1) obtain ms y m d where
    f: "js_utc_date ms = (y, m, d)" and vd: "validDate y m d"
    and r: "s = fmt_d0 4 y @ ''-'' @ fmt_d0 2 m @ ''-'' @ fmt_d0 2 d"
    and len: "length s = 10"
    by (rule timeClient_ParseDate_Inr)
  from validDate_ranges [OF vd] have rg: "0 \<le> m" "m < 100" "0 \<le> d" "d < 100" by simp_all
  from rg(1,2) obtain e f where ef: "e < 10" "f < 10" "m = int (num2 e f)"
    "fmt_d0 2 m = [digit_char e, digit_char f]"
    by (rule fmt_d0_2_digits)
  from rg(3,4) obtain g h where gh: "g < 10" "h < 10" "d = int (num2 g h)"
    "fmt_d0 2 d = [digit_char g, digit_char h]"
    by (rule fmt_d0_2_digits)
  have ne: "fmt_d0 4 y \<noteq> []" by (rule fmt_d0_nonempty)
  have y0: "0 \<le> y"
  proof (rule ccontr)
    assume "\<not> 0 \<le> y"
    then have "hd (fmt_d0 4 y) = CHR ''-''" by (simp add: fmt_d0_neg_hd)
    with ne have "hd s = CHR ''-''" by (subst r) simp
    with assms(2) show False by simp
  qed
  from len have "length (fmt_d0 4 y) = 4"
    by (subst (asm) r) (simp add: ef(4) gh(4))
  with y0 obtain a b c k where ab: "a < 10" "b < 10" "c < 10" "k < 10"
    "y = int (num4 a b c k)"
    "fmt_d0 4 y = [digit_char a, digit_char b, digit_char c, digit_char k]"
    by (rule fmt_d0_4_digits)
  have "s = [digit_char a, digit_char b, digit_char c, digit_char k] @ ''-''
            @ [digit_char e, digit_char f] @ ''-'' @ [digit_char g, digit_char h]"
    by (subst r) (simp only: ab(6) ef(4) gh(4))
  then have "dateFields s = Some (int (num4 a b c k), int (num2 e f), int (num2 g h))"
    using dateFields_rendered [OF ab(1-4) ef(1,2) gh(1,2)] by simp
  then have "dateFields s = Some (y, m, d)"
    by (simp only: ab(5) ef(3) gh(3))
  with vd show ?thesis by (simp add: validDateString_def)
qed

text \<open>
  Claim C4.  A string that is not a valid \<open>YYYY-MM-DD\<close> string (in particular a
  10-character string of that shape whose fields denote no existing calendar date, such
  as \<open>"2024-02-30"\<close>) is an error of \<open>ParseDate\<close> in the native backend, and in the
  bridged backend whatever the host's parser accepts (a string starting with a minus
  sign apart, which is not of the shape).  In the bridged backend a success means that
  the host's fields, rendered as \<open>%04d-%02d-%02d\<close>, are the input itself, and every
  mismatch is an error: no auto-corrected instant is ever returned.
\<close>

theorem ParseDate_rejects_nonexistent_dates:
  "(\<not> validDateString s \<longrightarrow> isl (timeServer_ParseDate s))
   \<and> (\<not> validDateString s \<and> hd s \<noteq> CHR ''-'' \<longrightarrow> isl (timeClient_ParseDate js s))
   \<and> (timeClient_ParseDate js s = Inr v \<longrightarrow>
        (\<exists>ms y m d. Date_parse js (s @ ''T00:00:00Z'') = Some ms
           \<and> js_utc_date ms = (y, m, d) \<and> validDate y m d
           \<and> s = fmt_d0 4 y @ ''-'' @ fmt_d0 2 m @ ''-'' @ fmt_d0 2 d
           \<and> v = word_of_int ms * 1000000))
   \<and> (Date_parse js (s @ ''T00:00:00Z'') = Some t \<and> js_utc_date t = (ty, tm, td)
        \<and> fmt_d0 4 ty @ ''-'' @ fmt_d0 2 tm @ ''-'' @ fmt_d0 2 td \<noteq> s
        \<longrightarrow> isl (timeClient_ParseDate js s))
   \<and> \<not> validDateString ''2024-02-30''"
proof (intro conjI impI)
  show "isl (timeServer_ParseDate s)" if "\<not> validDateString s"
    using that by (rule timeServer_ParseDate_invalid)
  show "isl (timeClient_ParseDate js s)" if h: "\<not> validDateString s \<and> hd s \<noteq> CHR ''-''"
  proof (cases "timeClient_ParseDate js s")
    case (Inl e)
    then show ?thesis by simp
  next
    case (Inr w)
    with h timeClient_ParseDate_valid [of js s w] show ?thesis by simp
  qed
  show "\<exists>ms y m d. Date_parse js (s @ ''T00:00:00Z'') = Some ms
           \<and> js_utc_date ms = (y, m, d) \<and> validDate y m d
           \<and> s = fmt_d0 4 y @ ''-'' @ fmt_d0 2 m @ ''-'' @ fmt_d0 2 d
           \<and> v = word_of_int ms * 1000000"
    if "timeClient_ParseDate js s = Inr v"
    using that by (rule timeClient_ParseDate_Inr) blast
  show "isl (timeClient_ParseDate js s)"
    if "Date_parse js (s @ ''T00:00:00Z'') = Some t \<and> js_utc_date t = (ty, tm, td)
        \<and> fmt_d0 4 ty @ ''-'' @ fmt_d0 2 tm @ ''-'' @ fmt_d0 2 td \<noteq> s"
    using that by (simp add: timeClient_ParseDate_def)
  show "\<not> validDateString ''2024-02-30''" by code_simp
qed

theorem ParseDate_rejects_nonexistent_dates_witness:
  "isl (timeServer_ParseDate ''2024-02-30'')
   \<and> isl (timeClient_ParseDate rollover_js ''2024-02-30'')
   \<and> Date_parse rollover_js (''2024-02-30'' @ ''T00:00:00Z'') = Some 1709251200000
   \<and> js_utc_date 1709251200000 = (2024, 3, 1)
   \<and> timeClient_ParseDate rollover_js ''2024-02-29'' = Inr 1709164800000000000
   \<and> (\<exists>ms y m d. Date_parse rollover_js (''2024-02-29'' @ ''T00:00:00Z'') = Some ms
          \<and> js_utc_date ms = (y, m, d) \<and> validDate y m d
          \<and> ''2024-02-29'' = fmt_d0 4 y @ ''-'' @ fmt_d0 2 m @ ''-'' @ fmt_d0 2 d
          \<and> (1709164800000000000 :: int64) = word_of_int ms * 1000000)"
proof -
  have nv: "\<not> validDateString ''2024-02-30''" by code_simp
  have hd: "hd ''2024-02-30'' \<noteq> CHR ''-''" by simp
  have p: "Date_parse rollover_js (''2024-02-30'' @ ''T00:00:00Z'') = Some 1709251200000"
    by code_simp
  have f: "js_utc_date 1709251200000 = (2024, 3, 1)" by code_simp
  have ne: "fmt_d0 4 2024 @ ''-'' @ fmt_d0 2 3 @ ''-'' @ fmt_d0 2 1 \<noteq> ''2024-02-30''"
    by code_simp
  have ok: "timeClient_ParseDate rollover_js ''2024-02-29'' = Inr 1709164800000000000"
    by code_simp
  note t = ParseDate_rejects_nonexistent_dates
    [of "''2024-02-30''" rollover_js 0 1709251200000 2024 3 1]
  note u = ParseDate_rejects_nonexistent_dates
    [of "''2024-02-29''" rollover_js 1709164800000000000 0 0 0 0]
  have 1: "isl (timeServer_ParseDate ''2024-02-30'')"
    by (rule t [THEN conjunct1, THEN mp, OF nv])
  have 2: "isl (timeClient_ParseDate rollover_js ''2024-02-30'')"
    by (rule t [THEN conjunct2, THEN conjunct1, THEN mp, OF conjI [OF nv hd]])
  have 3: "isl (timeClient_ParseDate rollover_js ''2024-02-30'')"
    by (rule t [THEN conjunct2, THEN conjunct2, THEN conjunct2, THEN conjunct1, THEN mp,
          OF conjI [OF p conjI [OF f ne]]])
  have 4: "\<exists>ms y m d. Date_parse rollover_js (''2024-02-29'' @ ''T00:00:00Z'') = Some ms
          \<and> js_utc_date ms = (y, m, d) \<and> validDate y m d
          \<and> ''2024-02-29'' = fmt_d0 4 y @ ''-'' @ fmt_d0 2 m @ ''-'' @ fmt_d0 2 d
          \<and> (1709164800000000000 :: int64) = word_of_int ms * 1000000"
    by (rule u [THEN conjunct2, THEN conjunct2, THEN conjunct1, THEN mp, OF ok])
  from 1 2 p f ok 4 show ?thesis by (intro conjI)
qed

section \<open>Parsing and formatting dates\<close>

lemma time_Add_zero:
  assumes "0 \<le> nsec t" "nsec t < 1000000000"
  shows "time_Add t 0 = t"
  using assms by (simp add: time_Add_def)

lemma sdiv_exact:
  fixes k c :: int
  assumes "0 < c"
  shows "(k * c) sdiv c = k"
proof -
  have "\<bar>k * c\<bar> div \<bar>c\<bar> = \<bar>k\<bar>"
    using assms by (simp add: abs_mult)
  moreover have "sgn (k * c) = sgn k" "sgn c = 1"
    using assms by (simp_all add: sgn_mult)
  moreover have "sgn k * \<bar>k\<bar> = k"
    by (simp add: sgn_if)
  ultimately show ?thesis
    by (simp add: signed_divide_int_def)
qed

lemma time_Unix_whole_seconds:
  assumes "- (2 ^ 63) \<le> k * 1000000000" "k * 1000000000 < 2 ^ 63"
  shows "time_Unix (word_of_int (k * 1000000000)) = \<lparr>unixSec = k, nsec = 0\<rparr>"
proof -
  have "sint (word_of_int (k * 1000000000) :: int64) = k * 1000000000"
    using assms by (intro sint_word_of_int_range) simp_all
  moreover have "(k * 1000000000) sdiv 1000000000 = k"
    by (rule sdiv_exact) simp
  ultimately show ?thesis
    by (simp add: time_Unix_def Let_def)
qed

lemma time_UnixNano_Date:
  "time_UnixNano (time_Date y m d) = word_of_int (86400 * unixDays y m d * 1000000000)"
  by (simp add: time_UnixNano_def time_Date_def)

lemma applyOffset_zero:
  assumes "0 \<le> nsec t" "nsec t < 1000000000"
  shows "applyOffset (SetTimeZoneOffset 0 st) t = t"
  using assms
  by (simp add: applyOffset_def SetTimeZoneOffset_def getOffsetMinutes_def time_Add_zero)

lemma render_fields:
  assumes "dateFields s = Some (y, m, d)"
  shows "appendInt y 4 @ ''-'' @ appendInt m 2 @ ''-'' @ appendInt d 2 = s"
proof -
  from assms have len: "length s = 10"
    by (auto simp add: dateFields_def split: if_splits)
  then obtain c0 c1 c2 c3 c4 c5 c6 c7 c8 c9
    where s: "s = [c0, c1, c2, c3, c4, c5, c6, c7, c8, c9]"
    by (rule length_10_explicit)
  from assms have dash: "c4 = CHR ''-''" "c7 = CHR ''-''"
    by (auto simp add: dateFields_def s split: if_splits)
  from assms obtain ny nm nd where
    n: "digits_val 0 [c0, c1, c2, c3] = Some ny" "digits_val 0 [c5, c6] = Some nm"
       "digits_val 0 [c8, c9] = Some nd" "y = int ny" "m = int nm" "d = int nd"
    by (auto simp add: dateFields_def s split: if_splits option.splits)
  from n(1) obtain a0 a1 a2 a3 where
    y: "digit_of c0 = Some a0" "digit_of c1 = Some a1" "digit_of c2 = Some a2"
       "digit_of c3 = Some a3" "ny = num4 a0 a1 a2 a3"
    unfolding digits_val_4 by blast
  from n(2) obtain b0 b1 where
    m: "digit_of c5 = Some b0" "digit_of c6 = Some b1" "nm = num2 b0 b1"
    unfolding digits_val_2 by blast
  from n(3) obtain e0 e1 where
    d: "digit_of c8 = Some e0" "digit_of c9 = Some e1" "nd = num2 e0 e1"
    unfolding digits_val_2 by blast
  note dc = digit_char_digit_of
  have "appendInt y 4 = [c0, c1, c2, c3]"
    unfolding n(4) y(5)
    using dc [OF y(1)] dc [OF y(2)] dc [OF y(3)] dc [OF y(4)]
    by (simp add: appendInt_num4)
  moreover have "appendInt m 2 = [c5, c6]"
    unfolding n(5) m(3) using dc [OF m(1)] dc [OF m(2)] by (simp add: appendInt_num2)
  moreover have "appendInt d 2 = [c8, c9]"
    unfolding n(6) d(3) using dc [OF d(1)] dc [OF d(2)] by (simp add: appendInt_num2)
  ultimately show ?thesis by (simp add: s dash)
qed

lemma roundtrip_in_range:
  assumes f: "dateFields s = Some (y, m, d)" and v: "validDate y m d"
    and lo: "- 106751 \<le> unixDays y m d" and hi: "unixDays y m d \<le> 106751"
  shows "\<exists>v. timeServer_ParseDate s = Inr v
           \<and> timeServer_FormatDate (SetTimeZoneOffset 0 st) (AnyInt64 v) = s"
proof -
  define n where "n = unixDays y m d"
  define w :: int64 where "w = word_of_int (86400 * n * 1000000000)"
  have p: "timeServer_ParseDate s = Inr w"
    by (simp add: timeServer_ParseDate_fields f v time_UnixNano_Date w_def n_def)
  have r: "- (2 ^ 63) \<le> 86400 * n * 1000000000" "86400 * n * 1000000000 < 2 ^ 63"
    using lo hi by (simp_all add: n_def)
  have u: "time_Unix w = \<lparr>unixSec = 86400 * n, nsec = 0\<rparr>"
    unfolding w_def using r by (rule time_Unix_whole_seconds)
  have a: "applyOffset (SetTimeZoneOffset 0 st) (time_Unix w) = \<lparr>unixSec = 86400 * n, nsec = 0\<rparr>"
    unfolding u by (rule applyOffset_zero) simp_all
  have "time_date \<lparr>unixSec = 86400 * n, nsec = 0\<rparr> = (y, m, d)"
    using civilFromDays_unixDays [OF v] by (simp add: time_date_def n_def)
  then have "Format_date \<lparr>unixSec = 86400 * n, nsec = 0\<rparr> = s"
    using render_fields [OF f] by (simp add: Format_date_def)
  with a have "timeServer_FormatDate (SetTimeZoneOffset 0 st) (AnyInt64 w) = s"
    by (simp add: timeServer_FormatDate_def)
  with p show ?thesis by blast
qed

lemma unixDays_bounds:
  assumes "validDate y m d"
  shows "daysSinceYear1 y - 719162 \<le> unixDays y m d"
    and "unixDays y m d < daysSinceYear1 (y + 1) - 719162"
proof -
  from assms have v: "1 \<le> m" "m \<le> 12" "1 \<le> d" "d \<le> monthLen (isLeap y) m"
    by (simp_all add: validDate_def daysIn_monthLen)
  from monthStart_bounds [OF v(1,2), of "isLeap y"] v(3)
  show "daysSinceYear1 y - 719162 \<le> unixDays y m d"
    by (simp add: unixDays_alt)
  from monthStart_end [OF v(1,2), of "isLeap y"] v(4)
  show "unixDays y m d < daysSinceYear1 (y + 1) - 719162"
    by (simp add: unixDays_alt daysSinceYear1_step yearLen_def split: if_splits)
qed

lemma daysSinceYear1_le:
  assumes "y \<le> y'"
  shows "daysSinceYear1 y \<le> daysSinceYear1 y'"
proof (cases "y = y'")
  case False
  with assms have "y < y'" by simp
  from daysSinceYear1_mono [OF this] yearLen_pos [of y] show ?thesis by linarith
qed simp

lemma unixDays_year_range:
  assumes "validDate y m d" "1678 \<le> y" "y \<le> 2261"
  shows "- 106751 \<le> unixDays y m d \<and> unixDays y m d \<le> 106751"
proof -
  have a: "daysSinceYear1 1678 = 612512" "daysSinceYear1 2262 = 825813"
    by (simp_all add: daysSinceYear1_def)
  from assms(2) have "daysSinceYear1 1678 \<le> daysSinceYear1 y" by (rule daysSinceYear1_le)
  moreover from assms(3) have "daysSinceYear1 (y + 1) \<le> daysSinceYear1 2262"
    by (intro daysSinceYear1_le) simp
  ultimately show ?thesis
    using unixDays_bounds [OF assms(1)] a by linarith
qed

theorem FormatDate_ParseDate_roundtrip_counterexample:
  "validDateString ''3000-01-01''
   \<and> timeServer_ParseDate ''3000-01-01'' = Inr 14056935926290448384
   \<and> timeServer_FormatDate (SetTimeZoneOffset 0 \<lparr>tzOffsetMinutes = 0\<rparr>)
         (AnyInt64 14056935926290448384) = ''1830-11-23''"
  by code_simp

text \<open>
  Claim C3, amended.  For every valid \<open>YYYY-MM-DD\<close> string whose date lies from
  1677-09-22 to 2262-04-11 (day numbers -106751 to 106751: the dates whose midnight UTC
  is an \<open>int64\<close> count of nanoseconds), in particular for every valid string with a
  year from 1678 to 2261, \<open>ParseDate\<close> succeeds and \<open>FormatDate\<close> of its result, with the
  Timezone Offset Register set to 0, is the string itself (native backend).
\<close>

theorem FormatDate_ParseDate_roundtrip:
  "(dateFields s = Some (y, m, d) \<and> validDate y m d
      \<and> - 106751 \<le> unixDays y m d \<and> unixDays y m d \<le> 106751 \<longrightarrow>
      (\<exists>v. timeServer_ParseDate s = Inr v
         \<and> timeServer_FormatDate (SetTimeZoneOffset 0 st) (AnyInt64 v) = s))
   \<and> (dateFields s = Some (y, m, d) \<and> validDate y m d \<and> 1678 \<le> y \<and> y \<le> 2261 \<longrightarrow>
      (\<exists>v. timeServer_ParseDate s = Inr v
         \<and> timeServer_FormatDate (SetTimeZoneOffset 0 st) (AnyInt64 v) = s))
   \<and> unixDays 1677 9 22 = - 106751 \<and> unixDays 2262 4 11 = 106751"
proof (intro conjI impI)
  show "\<exists>v. timeServer_ParseDate s = Inr v
         \<and> timeServer_FormatDate (SetTimeZoneOffset 0 st) (AnyInt64 v) = s"
    if h: "dateFields s = Some (y, m, d) \<and> validDate y m d
      \<and> - 106751 \<le> unixDays y m d \<and> unixDays y m d \<le> 106751"
    by (rule roundtrip_in_range
          [OF h [THEN conjunct1] h [THEN conjunct2, THEN conjunct1]
              h [THEN conjunct2, THEN conjunct2, THEN conjunct1]
              h [THEN conjunct2, THEN conjunct2, THEN conjunct2]])
  show "\<exists>v. timeServer_ParseDate s = Inr v
         \<and> timeServer_FormatDate (SetTimeZoneOffset 0 st) (AnyInt64 v) = s"
    if h: "dateFields s = Some (y, m, d) \<and> validDate y m d \<and> 1678 \<le> y \<and> y \<le> 2261"
  proof -
    note v = h [THEN conjunct2, THEN conjunct1]
    have r: "- 106751 \<le> unixDays y m d \<and> unixDays y m d \<le> 106751"
      by (rule unixDays_year_range
            [OF v h [THEN conjunct2, THEN conjunct2, THEN conjunct1]
                h [THEN conjunct2, THEN conjunct2, THEN conjunct2]])
    show ?thesis
      by (rule roundtrip_in_range [OF h [THEN conjunct1] v r [THEN conjunct1] r [THEN conjunct2]])
  qed
  show "unixDays 1677 9 22 = - 106751" by code_simp
  show "unixDays 2262 4 11 = 106751" by code_simp
qed

theorem FormatDate_ParseDate_roundtrip_witness:
  "(\<exists>v. timeServer_ParseDate ''2024-02-29'' = Inr v
      \<and> timeServer_FormatDate (SetTimeZoneOffset 0 \<lparr>tzOffsetMinutes = - 180\<rparr>) (AnyInt64 v)
          = ''2024-02-29'')
   \<and> (\<exists>v. timeServer_ParseDate ''1677-09-22'' = Inr v
      \<and> timeServer_FormatDate (SetTimeZoneOffset 0 \<lparr>tzOffsetMinutes = - 180\<rparr>) (AnyInt64 v)
          = ''1677-09-22'')
   \<and> timeServer_ParseDate ''2024-02-29'' = Inr 1709164800000000000"
proof -
  have a: "dateFields ''2024-02-29'' = Some (2024, 2, 29) \<and> validDate 2024 2 29
           \<and> 1678 \<le> (2024 :: int) \<and> (2024 :: int) \<le> 2261"
    by code_simp
  have b: "dateFields ''1677-09-22'' = Some (1677, 9, 22) \<and> validDate 1677 9 22
           \<and> - 106751 \<le> unixDays 1677 9 22 \<and> unixDays 1677 9 22 \<le> 106751"
    by code_simp
  have 1: "\<exists>v. timeServer_ParseDate ''2024-02-29'' = Inr v
      \<and> timeServer_FormatDate (SetTimeZoneOffset 0 \<lparr>tzOffsetMinutes = - 180\<rparr>) (AnyInt64 v)
          = ''2024-02-29''"
    by (rule FormatDate_ParseDate_roundtrip
          [of "''2024-02-29''" 2024 2 29 "\<lparr>tzOffsetMinutes = - 180\<rparr>",
           THEN conjunct2, THEN conjunct1, THEN mp, OF a])
  have 2: "\<exists>v. timeServer_ParseDate ''1677-09-22'' = Inr v
      \<and> timeServer_FormatDate (SetTimeZoneOffset 0 \<lparr>tzOffsetMinutes = - 180\<rparr>) (AnyInt64 v)
          = ''1677-09-22''"
    by (rule FormatDate_ParseDate_roundtrip
          [of "''1677-09-22''" 1677 9 22 "\<lparr>tzOffsetMinutes = - 180\<rparr>",
           THEN conjunct1, THEN mp, OF b])
  have 3: "timeServer_ParseDate ''2024-02-29'' = Inr 1709164800000000000" by code_simp
  from 1 2 3 show ?thesis by (intro conjI)
qed

section \<open>The clock under the Timezone Offset Register\<close>

lemma Format_clock_seconds: "Format_clock t = clockOfSeconds (unixSec t)"
proof -
  define s where "s = unixSec t mod 86400"
  have a: "s - s div 3600 * 3600 = s mod 3600"
    by (simp add: minus_div_mult_eq_mod)
  have b: "s mod 3600 - s mod 3600 div 60 * 60 = s mod 3600 mod 60"
    by (simp add: minus_div_mult_eq_mod)
  have c: "s mod 3600 mod 60 = s mod 60"
    by (simp add: mod_mod_cancel)
  show ?thesis
    unfolding Format_clock_def time_clock_def clockOfSeconds_def Let_def s_def [symmetric]
    by (simp add: a b c)
qed

lemma time_Unix_floor:
  "time_Unix v = \<lparr>unixSec = sint v div 1000000000, nsec = sint v mod 1000000000\<rparr>"
proof -
  define x where "x = sint v"
  define b :: int where "b = of_bool (x < 0 \<and> \<not> 1000000000 dvd x)"
  have sd: "x sdiv 1000000000 = x div 1000000000 + b"
    unfolding signed_divide_int_eq_divide_int b_def
    by (cases "x < 0"; cases "x = 0") (auto simp add: sgn_if)
  have r: "x - (x div 1000000000 + b) * 1000000000 = x mod 1000000000 - b * 1000000000"
    by (simp add: algebra_simps minus_mult_div_eq_mod)
  have m: "0 \<le> x mod 1000000000" "x mod 1000000000 < 1000000000" by simp_all
  show ?thesis
  proof (cases "b = 0")
    case True
    with m show ?thesis
      unfolding time_Unix_def Let_def x_def [symmetric] sd r by simp
  next
    case False
    then have "b = 1" by (simp add: b_def split: if_splits)
    with m show ?thesis
      unfolding time_Unix_def Let_def x_def [symmetric] sd r by simp
  qed
qed

lemma smod_exact:
  fixes k c :: int
  assumes "0 < c"
  shows "(k * c) smod c = 0"
  by (simp add: signed_modulo_int_def abs_mult)

lemma time_Add_whole_seconds:
  assumes "0 \<le> nsec t" "nsec t < 1000000000" "sint d = k * 1000000000"
  shows "time_Add t d = \<lparr>unixSec = unixSec t + k, nsec = nsec t\<rparr>"
proof -
  have "sint d sdiv 1000000000 = k" "sint d smod 1000000000 = 0"
    unfolding assms(3) by (simp_all add: sdiv_exact smod_exact)
  with assms(1,2) show ?thesis
    by (simp add: time_Add_def Let_def)
qed

lemma offset_duration:
  fixes m :: int32
  assumes "- 153722867 \<le> sint m" "sint m \<le> 153722867"
  shows "sint (scast m * time_Minute :: int64) = (60 * sint m) * 1000000000"
proof -
  have s: "sint (scast m :: int64) = sint m"
    by (rule sint_up_scast) (simp add: is_up)
  have "sint (scast m * time_Minute :: int64)
        = signed_take_bit 63 (sint m * 60000000000)"
    by (simp add: sint_word_mult s time_Minute_def)
  also have "\<dots> = sint m * 60000000000"
    using assms by (intro signed_take_bit_int_eq_self) simp_all
  finally show ?thesis by simp
qed

lemma FormatTime_shift:
  assumes "- 153722867 \<le> sint (tzOffsetMinutes st)" "sint (tzOffsetMinutes st) \<le> 153722867"
  shows "timeServer_FormatTime lib st (AnyInt64 v)
         = clockOfSeconds (sint v div 1000000000 + 60 * sint (tzOffsetMinutes st))"
proof -
  have "applyOffset st (time_Unix v)
        = \<lparr>unixSec = sint v div 1000000000 + 60 * sint (tzOffsetMinutes st),
            nsec = sint v mod 1000000000\<rparr>"
    unfolding applyOffset_def getOffsetMinutes_def time_Unix_floor
    using offset_duration [OF assms]
    by (subst time_Add_whole_seconds [where k = "60 * sint (tzOffsetMinutes st)"]) simp_all
  then show ?thesis
    by (simp add: timeServer_FormatTime_def Format_clock_seconds)
qed

lemma sint_SetTimeZoneOffset:
  "sint (tzOffsetMinutes (SetTimeZoneOffset 0 st)) = 0"
  "sint (tzOffsetMinutes (SetTimeZoneOffset (- 3) st)) = - 180"
  "sint (tzOffsetMinutes (SetTimeZoneOffset 1 st)) = 60"
  by (simp_all add: SetTimeZoneOffset_def)

text \<open>
  Claim C2.  With the Timezone Offset Register set to \<open>h\<close> hours, \<open>FormatTime\<close> of the
  instant \<open>1609459200 * 10^9\<close> is \<open>"00:00:00"\<close> for \<open>h = 0\<close>, \<open>"21:00:00"\<close> for
  \<open>h = -3\<close> and \<open>"01:00:00"\<close> for \<open>h = +1\<close>, in both backends.  The native backend
  renders the UTC clock of the instant's whole seconds plus 60 times the register's
  minutes as long as the register holds at most 153,722,867 minutes in absolute value.
  Beyond that, \<open>time.Duration(offset) * time.Minute\<close> overflows \<open>int64\<close>: with the
  register set to 3,000,000 hours, a whole number of days, \<open>FormatTime\<close> of the instant
  0 is \<open>"00:25:26"\<close> natively, where the additive shift and the bridged backend, which
  adds the offset in \<open>float64\<close>, give \<open>"00:00:00"\<close>.  The bridged backend in turn cuts
  the instant to whole milliseconds toward zero: for the instant -1 it gives
  \<open>"00:00:00"\<close>, where the clock of the instant, and the native backend, give
  \<open>"23:59:59"\<close>.
\<close>

theorem FormatTime_offset_overflow:
  "timeServer_FormatTime lib (SetTimeZoneOffset 0 st) (AnyInt64 1609459200000000000)
     = ''00:00:00''
   \<and> timeServer_FormatTime lib (SetTimeZoneOffset (- 3) st) (AnyInt64 1609459200000000000)
     = ''21:00:00''
   \<and> timeServer_FormatTime lib (SetTimeZoneOffset 1 st) (AnyInt64 1609459200000000000)
     = ''01:00:00''
   \<and> timeClient_FormatTime stdfmt rollover_js (SetTimeZoneOffset 0 \<lparr>tzOffsetMinutes = 0\<rparr>)
         (AnyInt64 1609459200000000000) = ''00:00:00''
   \<and> timeClient_FormatTime stdfmt rollover_js (SetTimeZoneOffset (- 3) \<lparr>tzOffsetMinutes = 0\<rparr>)
         (AnyInt64 1609459200000000000) = ''21:00:00''
   \<and> timeClient_FormatTime stdfmt rollover_js (SetTimeZoneOffset 1 \<lparr>tzOffsetMinutes = 0\<rparr>)
         (AnyInt64 1609459200000000000) = ''01:00:00''
   \<and> (- 153722867 \<le> sint (tzOffsetMinutes st) \<and> sint (tzOffsetMinutes st) \<le> 153722867
        \<longrightarrow> timeServer_FormatTime lib st (AnyInt64 v)
            = clockOfSeconds (sint v div 1000000000 + 60 * sint (tzOffsetMinutes st)))
   \<and> sint (tzOffsetMinutes (SetTimeZoneOffset 3000000 \<lparr>tzOffsetMinutes = 0\<rparr>)) = 180000000
   \<and> clockOfSeconds (sint (0 :: int64) div 1000000000 + 60 * 180000000) = ''00:00:00''
   \<and> timeServer_FormatTime stdfmt (SetTimeZoneOffset 3000000 \<lparr>tzOffsetMinutes = 0\<rparr>)
         (AnyInt64 0) = ''00:25:26''
   \<and> timeClient_FormatTime stdfmt rollover_js (SetTimeZoneOffset 3000000 \<lparr>tzOffsetMinutes = 0\<rparr>)
         (AnyInt64 0) = ''00:00:00''
   \<and> clockOfSeconds (sint (- 1 :: int64) div 1000000000 + 60 * 0) = ''23:59:59''
   \<and> timeServer_FormatTime stdfmt \<lparr>tzOffsetMinutes = 0\<rparr> (AnyInt64 (- 1)) = ''23:59:59''
   \<and> timeClient_FormatTime stdfmt rollover_js \<lparr>tzOffsetMinutes = 0\<rparr> (AnyInt64 (- 1))
       = ''00:00:00''"
proof (intro conjI impI)
  have c0: "clockOfSeconds (sint (1609459200000000000 :: int64) div 1000000000 + 60 * 0)
            = ''00:00:00''" by code_simp
  have c1: "clockOfSeconds (sint (1609459200000000000 :: int64) div 1000000000 + 60 * (- 180))
            = ''21:00:00''" by code_simp
  have c2: "clockOfSeconds (sint (1609459200000000000 :: int64) div 1000000000 + 60 * 60)
            = ''01:00:00''" by code_simp
  show "timeServer_FormatTime lib (SetTimeZoneOffset 0 st) (AnyInt64 1609459200000000000)
     = ''00:00:00''"
  proof -
    have "timeServer_FormatTime lib (SetTimeZoneOffset 0 st) (AnyInt64 1609459200000000000)
          = clockOfSeconds (sint (1609459200000000000 :: int64) div 1000000000
              + 60 * sint (tzOffsetMinutes (SetTimeZoneOffset 0 st)))"
      by (rule FormatTime_shift) (simp_all add: sint_SetTimeZoneOffset)
    then show ?thesis
      by (simp only: sint_SetTimeZoneOffset c0)
  qed
  show "timeServer_FormatTime lib (SetTimeZoneOffset (- 3) st) (AnyInt64 1609459200000000000)
     = ''21:00:00''"
  proof -
    have "timeServer_FormatTime lib (SetTimeZoneOffset (- 3) st) (AnyInt64 1609459200000000000)
          = clockOfSeconds (sint (1609459200000000000 :: int64) div 1000000000
              + 60 * sint (tzOffsetMinutes (SetTimeZoneOffset (- 3) st)))"
      by (rule FormatTime_shift) (simp_all add: sint_SetTimeZoneOffset)
    then show ?thesis
      by (simp only: sint_SetTimeZoneOffset c1)
  qed
  show "timeServer_FormatTime lib (SetTimeZoneOffset 1 st) (AnyInt64 1609459200000000000)
     = ''01:00:00''"
  proof -
    have "timeServer_FormatTime lib (SetTimeZoneOffset 1 st) (AnyInt64 1609459200000000000)
          = clockOfSeconds (sint (1609459200000000000 :: int64) div 1000000000
              + 60 * sint (tzOffsetMinutes (SetTimeZoneOffset 1 st)))"
      by (rule FormatTime_shift) (simp_all add: sint_SetTimeZoneOffset)
    then show ?thesis
      by (simp only: sint_SetTimeZoneOffset c2)
  qed
  show "timeClient_FormatTime stdfmt rollover_js (SetTimeZoneOffset 0 \<lparr>tzOffsetMinutes = 0\<rparr>)
         (AnyInt64 1609459200000000000) = ''00:00:00''"
    by code_simp
  show "timeClient_FormatTime stdfmt rollover_js (SetTimeZoneOffset (- 3) \<lparr>tzOffsetMinutes = 0\<rparr>)
         (AnyInt64 1609459200000000000) = ''21:00:00''"
    by code_simp
  show "timeClient_FormatTime stdfmt rollover_js (SetTimeZoneOffset 1 \<lparr>tzOffsetMinutes = 0\<rparr>)
         (AnyInt64 1609459200000000000) = ''01:00:00''"
    by code_simp
  show "timeServer_FormatTime lib st (AnyInt64 v)
            = clockOfSeconds (sint v div 1000000000 + 60 * sint (tzOffsetMinutes st))"
    if h: "- 153722867 \<le> sint (tzOffsetMinutes st) \<and> sint (tzOffsetMinutes st) \<le> 153722867"
    by (rule FormatTime_shift [OF h [THEN conjunct1] h [THEN conjunct2]])
  show "sint (tzOffsetMinutes (SetTimeZoneOffset 3000000 \<lparr>tzOffsetMinutes = 0\<rparr>)) = 180000000"
    by code_simp
  show "clockOfSeconds (sint (0 :: int64) div 1000000000 + 60 * 180000000) = ''00:00:00''"
    by code_simp
  show "timeServer_FormatTime stdfmt (SetTimeZoneOffset 3000000 \<lparr>tzOffsetMinutes = 0\<rparr>)
         (AnyInt64 0) = ''00:25:26''"
    by code_simp
  show "timeClient_FormatTime stdfmt rollover_js (SetTimeZoneOffset 3000000 \<lparr>tzOffsetMinutes = 0\<rparr>)
         (AnyInt64 0) = ''00:00:00''"
    by code_simp
  show "clockOfSeconds (sint (- 1 :: int64) div 1000000000 + 60 * 0) = ''23:59:59''"
    by code_simp
  show "timeServer_FormatTime stdfmt \<lparr>tzOffsetMinutes = 0\<rparr> (AnyInt64 (- 1)) = ''23:59:59''"
    by code_simp
  show "timeClient_FormatTime stdfmt rollover_js \<lparr>tzOffsetMinutes = 0\<rparr> (AnyInt64 (- 1))
       = ''00:00:00''"
    by code_simp
qed

theorem FormatTime_offset_overflow_witness:
  "timeServer_FormatTime stdfmt \<lparr>tzOffsetMinutes = 330\<rparr> (AnyInt64 (- 1))
     = clockOfSeconds (- 1 + 60 * 330)
   \<and> clockOfSeconds (- 1 + 60 * 330) = ''05:29:59''
   \<and> timeServer_FormatTime stdfmt (SetTimeZoneOffset (- 3) \<lparr>tzOffsetMinutes = 0\<rparr>)
         (AnyInt64 1609459200000000000) = ''21:00:00''"
proof -
  have h: "- 153722867 \<le> sint (tzOffsetMinutes \<lparr>tzOffsetMinutes = 330\<rparr>)
           \<and> sint (tzOffsetMinutes \<lparr>tzOffsetMinutes = 330\<rparr>) \<le> 153722867"
    by simp
  note t = FormatTime_offset_overflow [of stdfmt "\<lparr>tzOffsetMinutes = 330\<rparr>" "- 1"]
  have "timeServer_FormatTime stdfmt \<lparr>tzOffsetMinutes = 330\<rparr> (AnyInt64 (- 1))
     = clockOfSeconds (sint (- 1 :: int64) div 1000000000
         + 60 * sint (tzOffsetMinutes \<lparr>tzOffsetMinutes = 330\<rparr>))"
    by (rule t [THEN conjunct2, THEN conjunct2, THEN conjunct2, THEN conjunct2,
          THEN conjunct2, THEN conjunct2, THEN conjunct1, THEN mp, OF h])
  then have 1: "timeServer_FormatTime stdfmt \<lparr>tzOffsetMinutes = 330\<rparr> (AnyInt64 (- 1))
     = clockOfSeconds (- 1 + 60 * 330)"
    by simp
  have 2: "clockOfSeconds (- 1 + 60 * 330) = ''05:29:59''" by code_simp
  have 3: "timeServer_FormatTime stdfmt (SetTimeZoneOffset (- 3) \<lparr>tzOffsetMinutes = 0\<rparr>)
         (AnyInt64 1609459200000000000) = ''21:00:00''"
    by (rule FormatTime_offset_overflow
          [of stdfmt "\<lparr>tzOffsetMinutes = 0\<rparr>", THEN conjunct2, THEN conjunct1])
  from 1 2 3 show ?thesis by (intro conjI)
qed

end
